theory Spec2Isabelle
  imports Main "HOL-Library.Sublist"
begin

section \<open>Data model of \<^verbatim>\<open>magentic/chat_model/stream.py\<close>\<close>

text \<open>
  \<^verbatim>\<open>FunctionCallChunk\<close> is a named tuple of three optional strings. The field names
  \<^verbatim>\<open>id\<close>, \<^verbatim>\<open>name\<close>, \<^verbatim>\<open>args\<close> are prefixed, since \<open>id\<close> is a constant of HOL.
\<close>

record FunctionCallChunk =
  chunk_id :: "string option"
  chunk_name :: "string option"
  chunk_args :: "string option"

text \<open>
  \<^verbatim>\<open>StreamParser\<close> is an abstract class with four methods over a raw event of type
  \<open>'item\<close>. \<^verbatim>\<open>iter_tool_calls\<close> returns a finite iterable, read here as a list.
\<close>

record 'item StreamParser =
  is_content :: "'item \<Rightarrow> bool"
  get_content :: "'item \<Rightarrow> string option"
  is_tool_call :: "'item \<Rightarrow> bool"
  iter_tool_calls :: "'item \<Rightarrow> FunctionCallChunk list"

text \<open>
  Python's truth value of a \<^verbatim>\<open>str | None\<close>, as tested by \<^verbatim>\<open>if content := ...\<close>,
  \<^verbatim>\<open>if item.id and ...\<close> and \<^verbatim>\<open>if item.args\<close>: neither \<^verbatim>\<open>None\<close> nor the empty string.
\<close>

definition truthy :: "string option \<Rightarrow> bool" where
  "truthy s = (case s of None \<Rightarrow> False | Some t \<Rightarrow> t \<noteq> [])"

text \<open>
  A function schema, whose class is imported from \<^verbatim>\<open>function_schema.py\<close>, is taken
  as a parameter. \<^verbatim>\<open>parse_args\<close> receives the lazy iterator of argument fragments: a
  deterministic reader of an iterator is given by the decision to call \<^verbatim>\<open>next\<close> once
  more after the fragments received so far (\<open>wants_more\<close>), and by its result on the
  fragments it has received when it stops (\<open>validate\<close>): the typed output, or pydantic's
  \<^verbatim>\<open>ValidationError\<close>, of type \<open>'e\<close>. It stops reading when \<open>wants_more\<close> is false or
  when the iterator is exhausted.
\<close>

record ('o, 'e) FunctionSchema =
  schema_name :: string
  wants_more :: "string list \<Rightarrow> bool"
  validate :: "string list \<Rightarrow> 'e + 'o"

text \<open>
  The constructor arguments of \<^verbatim>\<open>OutputStream\<close> that are never mutated, and what
  Python decides about the values of the two type variables: \<open>output_iterable\<close> is the
  test \<^verbatim>\<open>isinstance(output, Iterable)\<close> on a typed output, and \<open>item_truthy\<close> is the
  truth value of a raw event, which the walrus of line 183 tests.
\<close>

record ('item, 'o, 'e) OutputStream =
  function_schemas :: "('o, 'e) FunctionSchema list"
  parser :: "'item StreamParser"
  output_iterable :: "'o \<Rightarrow> bool"
  item_truthy :: "'item \<Rightarrow> bool"

text \<open>
  Modelled from the spec: \<^verbatim>\<open>apply\<close> of \<^verbatim>\<open>magentic/streaming.py\<close> is not among the
  sources. By the spec the engine "pulls from underlying event source" and "each event
  updates State as a side effect": \<^verbatim>\<open>apply(update, source)\<close> calls \<^verbatim>\<open>State.update\<close> on
  an event when it delivers it.

  An iterator is the list of what it has still to deliver: an event of the source that
  will be updated on delivery (\<open>Fresh\<close>), or an event that was pulled before and that
  \<^verbatim>\<open>chain([item], stream)\<close> delivers again, with no second update (\<open>Chained\<close>).
\<close>

datatype 'item cell = Fresh 'item | Chained 'item

fun item_of :: "'item cell \<Rightarrow> 'item" where
  "item_of (Fresh x) = x"
| "item_of (Chained x) = x"

text \<open>
  The mutable variables of one engine: the local \<^verbatim>\<open>stream\<close>, the chunks standing at
  the front of the local \<^verbatim>\<open>tool_calls_stream\<close> (a chunk chained back and the chunks of
  the current event not yet delivered), the arguments \<^verbatim>\<open>State.update\<close> was called with,
  in call order, the flag \<^verbatim>\<open>_exhausted\<close>, and the two one-slot lists
  \<^verbatim>\<open>current_item_ref\<close> and \<^verbatim>\<open>tool_call_ref\<close>.

  \<^verbatim>\<open>StreamState\<close> is abstract: any implementation's snapshot is a function of the
  events it was updated with, so \<^verbatim>\<open>current_message_snapshot\<close> is read as \<open>updated\<close>.
\<close>

record 'item heap =
  stream :: "'item cell list"
  tool_calls_stream :: "FunctionCallChunk list"
  updated :: "'item list"
  exhausted :: bool
  current_item_ref :: "'item list"
  tool_call_ref :: "FunctionCallChunk list"

datatype ('item, 'e) error =
    RuntimeError
  | AssertionError
  | UnknownToolError "'item list" string string
  | ToolSchemaParseError "'item list" string 'e

datatype ('item, 'e) outcome = Completed | OutOfFuel | Raised "('item, 'e) error"

text \<open>
  A Text Segment is a \<^verbatim>\<open>StreamedStr\<close> over the generator \<^verbatim>\<open>_streamed_str\<close>: the
  fragments the consumer pulled from it, then those the engine pulled by
  \<^verbatim>\<open>consume(streamed_str)\<close>. A Structured Segment is the output of \<^verbatim>\<open>parse_args\<close>.
\<close>

datatype 'o segment = Text "string list" "string list" | Structured 'o

fun fragments :: "'o segment \<Rightarrow> string list" where
  "fragments (Text taken drained) = taken @ drained"
| "fragments (Structured out) = []"

fun is_text :: "'o segment \<Rightarrow> bool" where
  "is_text (Text taken drained) = True"
| "is_text (Structured out) = False"

text \<open>What one \<^verbatim>\<open>next\<close> on a generator gives: a value, \<^verbatim>\<open>StopIteration\<close>, or the
  \<^verbatim>\<open>AssertionError\<close> of an \<^verbatim>\<open>assert\<close> in its body.\<close>

datatype 'a pulled = Yielded 'a | StopIteration | AssertionFailed

section \<open>Pulling events\<close>

text \<open>\<^verbatim>\<open>next(stream)\<close>; \<open>None\<close> is \<^verbatim>\<open>StopIteration\<close>.\<close>

definition next_item :: "'item heap \<Rightarrow> ('item \<times> 'item heap) option" where
  "next_item h =
     (case stream h of
        [] \<Rightarrow> None
      | Fresh x # cs \<Rightarrow> Some (x, h\<lparr>stream := cs, updated := updated h @ [x]\<rparr>)
      | Chained x # cs \<Rightarrow> Some (x, h\<lparr>stream := cs\<rparr>))"

lemma next_item_length:
  "next_item h = Some (x, h') \<Longrightarrow> length (stream h') < length (stream h)"
  by (auto simp: next_item_def split: list.splits cell.splits)

section \<open>The generator \<^verbatim>\<open>_streamed_str\<close>\<close>

text \<open>
  Where the generator stands: at the head of its \<^verbatim>\<open>for\<close> loop (\<open>Running None\<close>),
  suspended at \<^verbatim>\<open>yield content\<close> in the iteration of an event (\<open>Running (Some item)\<close>:
  the test \<^verbatim>\<open>is_tool_call(item)\<close> is still to come), or finished.
\<close>

datatype 'item str_gen = Running "'item option" | Finished

fun gen_rank :: "'item str_gen \<Rightarrow> nat" where
  "gen_rank (Running (Some x)) = 1"
| "gen_rank g = 0"

function streamed_str_next ::
  "'item StreamParser \<Rightarrow> 'item str_gen \<Rightarrow> 'item heap \<Rightarrow> string pulled \<times> 'item str_gen \<times> 'item heap"
where
  "streamed_str_next P Finished h = (StopIteration, Finished, h)"
| "streamed_str_next P (Running (Some item)) h =
     (if is_tool_call P item then
        (if current_item_ref h \<noteq> [] then (AssertionFailed, Finished, h)
         else (StopIteration, Finished, h\<lparr>current_item_ref := current_item_ref h @ [item]\<rparr>))
      else streamed_str_next P (Running None) h)"
| "streamed_str_next P (Running None) h =
     (case next_item h of
        None \<Rightarrow> (StopIteration, Finished, h\<lparr>exhausted := True\<rparr>)
      | Some (item, h') \<Rightarrow>
          (if truthy (get_content P item)
           then (Yielded (the (get_content P item)), Running (Some item), h')
           else streamed_str_next P (Running (Some item)) h'))"
  by pat_completeness auto
termination
  by (relation "measure (\<lambda>(P, g, h). 2 * length (stream h) + gen_rank g)")
     (auto dest: next_item_length)

lemma streamed_str_next_decreases:
  "streamed_str_next P g h = (Yielded s, g', h') \<Longrightarrow>
     2 * length (stream h') + gen_rank g' < 2 * length (stream h) + gen_rank g"
proof (induction P g h rule: streamed_str_next.induct)
  case (1 P h)
  then show ?case by simp
next
  case (2 P item h)
  then show ?case by (auto split: if_splits)
next
  case (3 P h)
  show ?case
  proof (cases "next_item h")
    case None
    with "3.prems" show ?thesis by simp
  next
    case (Some p)
    obtain item h1 where p: "p = (item, h1)" by (cases p)
    from Some p have len: "length (stream h1) < length (stream h)"
      by (auto dest: next_item_length)
    show ?thesis
    proof (cases "truthy (get_content P item)")
      case True
      with Some p "3.prems" len show ?thesis by auto
    next
      case False
      with Some p "3.prems"
      have "streamed_str_next P (Running (Some item)) h1 = (Yielded s, g', h')"
        by simp
      with "3.IH" [OF Some [unfolded p] refl False]
      have "2 * length (stream h') + gen_rank g' < 2 * length (stream h1) + 1"
        by simp
      with len show ?thesis by simp
    qed
  qed
qed

text \<open>
  The consumer's reading of a Text Segment: \<open>k\<close> calls of \<^verbatim>\<open>next\<close> reach the generator
  (a \<^verbatim>\<open>StreamedStr\<close> caches what it delivered, so reading it again pulls nothing); the
  reading ends at \<^verbatim>\<open>StopIteration\<close>. The flag tells whether no assertion failed.
\<close>

fun streamed_str_pulls ::
  "nat \<Rightarrow> 'item StreamParser \<Rightarrow> 'item str_gen \<Rightarrow> 'item heap \<Rightarrow>
     string list \<times> bool \<times> 'item str_gen \<times> 'item heap"
where
  "streamed_str_pulls 0 P g h = ([], True, g, h)"
| "streamed_str_pulls (Suc k) P g h =
     (case streamed_str_next P g h of
        (Yielded s, g', h') \<Rightarrow>
          (case streamed_str_pulls k P g' h' of (ss, ok, g'', h'') \<Rightarrow> (s # ss, ok, g'', h''))
      | (StopIteration, g', h') \<Rightarrow> ([], True, g', h')
      | (AssertionFailed, g', h') \<Rightarrow> ([], False, g', h'))"

text \<open>
  Modelled from the spec: \<^verbatim>\<open>consume\<close> and \<^verbatim>\<open>StreamedStr\<close> of \<^verbatim>\<open>magentic/streaming.py\<close>
  are not among the sources. By the spec the engine "must drain it itself (discarding
  remaining text)": \<^verbatim>\<open>consume(streamed_str)\<close> pulls the generator until
  \<^verbatim>\<open>StopIteration\<close>. The fragments it pulls are returned for the record of the segment.
\<close>

function streamed_str_consume ::
  "'item StreamParser \<Rightarrow> 'item str_gen \<Rightarrow> 'item heap \<Rightarrow>
     string list \<times> bool \<times> 'item str_gen \<times> 'item heap"
where
  "streamed_str_consume P g h =
     (case streamed_str_next P g h of
        (Yielded s, g', h') \<Rightarrow>
          (case streamed_str_consume P g' h' of (ss, ok, g'', h'') \<Rightarrow> (s # ss, ok, g'', h''))
      | (StopIteration, g', h') \<Rightarrow> ([], True, g', h')
      | (AssertionFailed, g', h') \<Rightarrow> ([], False, g', h'))"
  by pat_completeness auto
termination
  by (relation "measure (\<lambda>(P, g, h). 2 * length (stream h) + gen_rank g)")
     (auto dest: streamed_str_next_decreases [OF sym])

declare streamed_str_consume.simps [simp del]

section \<open>The flattened chunk stream and the generator \<^verbatim>\<open>_tool_call\<close>\<close>

text \<open>
  \<^verbatim>\<open>next(tool_calls_stream)\<close>: the generator expression flattens
  \<^verbatim>\<open>iter_tool_calls(item)\<close> over every event of the stream, whatever its class.
\<close>

function next_chunk ::
  "'item StreamParser \<Rightarrow> 'item heap \<Rightarrow> FunctionCallChunk option \<times> 'item heap"
where
  "next_chunk P h =
     (case tool_calls_stream h of
        c # cs \<Rightarrow> (Some c, h\<lparr>tool_calls_stream := cs\<rparr>)
      | [] \<Rightarrow>
          (case next_item h of
             None \<Rightarrow> (None, h)
           | Some (item, h') \<Rightarrow> next_chunk P (h'\<lparr>tool_calls_stream := iter_tool_calls P item\<rparr>)))"
  by pat_completeness auto
termination
  by (relation "measure (\<lambda>(P, h). length (stream h))") (auto dest: next_item_length)

declare next_chunk.simps [simp del]

definition chunk_weight :: "'item StreamParser \<Rightarrow> 'item heap \<Rightarrow> nat" where
  "chunk_weight P h =
     length (tool_calls_stream h) +
     sum_list (map (\<lambda>c. Suc (length (iter_tool_calls P (item_of c)))) (stream h))"

lemma next_chunk_decreases:
  "next_chunk P h = (Some c, h') \<Longrightarrow> chunk_weight P h' < chunk_weight P h"
proof (induction P h rule: next_chunk.induct)
  case (1 P h)
  show ?case
  proof (cases "tool_calls_stream h")
    case (Cons d ds)
    with "1.prems" show ?thesis
      by (auto simp: next_chunk.simps [of P h] chunk_weight_def)
  next
    case Nil
    show ?thesis
    proof (cases "next_item h")
      case None
      with Nil "1.prems" show ?thesis by (simp add: next_chunk.simps [of P h])
    next
      case (Some p)
      obtain item h1 where p: "p = (item, h1)" by (cases p)
      let ?h2 = "h1\<lparr>tool_calls_stream := iter_tool_calls P item\<rparr>"
      from Nil Some p "1.prems" have "next_chunk P ?h2 = (Some c, h')"
        by (simp add: next_chunk.simps [of P h])
      with "1.IH" [OF Nil Some [unfolded p] refl] have "chunk_weight P h' < chunk_weight P ?h2"
        by simp
      moreover from Nil Some p have "chunk_weight P ?h2 < chunk_weight P h"
        by (auto simp: chunk_weight_def next_item_def split: list.splits cell.splits)
      ultimately show ?thesis by simp
    qed
  qed
qed

datatype call_gen = Active | Done

function tool_call_next ::
  "'item StreamParser \<Rightarrow> string \<Rightarrow> call_gen \<Rightarrow> 'item heap \<Rightarrow> string pulled \<times> call_gen \<times> 'item heap"
where
  "tool_call_next P current_tool_call_id Done h = (StopIteration, Done, h)"
| "tool_call_next P current_tool_call_id Active h =
     (case next_chunk P h of
        (None, h') \<Rightarrow> (StopIteration, Done, h'\<lparr>exhausted := True\<rparr>)
      | (Some item, h') \<Rightarrow>
          (if truthy (chunk_id item) \<and> chunk_id item \<noteq> Some current_tool_call_id then
             (if tool_call_ref h' \<noteq> [] then (AssertionFailed, Done, h')
              else (StopIteration, Done, h'\<lparr>tool_call_ref := tool_call_ref h' @ [item]\<rparr>))
           else if truthy (chunk_args item) then (Yielded (the (chunk_args item)), Active, h')
           else tool_call_next P current_tool_call_id Active h'))"
  by pat_completeness auto
termination
  by (relation "measure (\<lambda>(P, i, g, h). chunk_weight P h)")
     (auto dest: next_chunk_decreases [OF sym])

declare tool_call_next.simps(2) [simp del]

lemma tool_call_next_decreases:
  "tool_call_next P i g h = (Yielded a, g', h') \<Longrightarrow> chunk_weight P h' < chunk_weight P h"
proof (induction P i g h rule: tool_call_next.induct)
  case (1 P i h)
  then show ?case by simp
next
  case (2 P i h)
  obtain r h1 where nc: "next_chunk P h = (r, h1)" by (cases "next_chunk P h")
  show ?case
  proof (cases r)
    case None
    with nc "2.prems" show ?thesis by (simp add: tool_call_next.simps(2) [of P i h])
  next
    case (Some c)
    from nc Some have w: "chunk_weight P h1 < chunk_weight P h"
      by (auto dest: next_chunk_decreases)
    show ?thesis
    proof (cases "truthy (chunk_id c) \<and> chunk_id c \<noteq> Some i")
      case True
      with nc Some "2.prems" show ?thesis
        by (auto simp: tool_call_next.simps(2) [of P i h] split: if_splits)
    next
      case False
      show ?thesis
      proof (cases "truthy (chunk_args c)")
        case True
        with False nc Some "2.prems" w show ?thesis
          by (auto simp: tool_call_next.simps(2) [of P i h])
      next
        case nargs: False
        with False nc Some "2.prems" have "tool_call_next P i Active h1 = (Yielded a, g', h')"
          by (auto simp: tool_call_next.simps(2) [of P i h])
        with "2.IH" [OF nc [symmetric, unfolded Some] refl False nargs]
        have "chunk_weight P h' < chunk_weight P h1" by simp
        with w show ?thesis by simp
      qed
    qed
  qed
qed

section \<open>Parsing one call\<close>

text \<open>
  \<^verbatim>\<open>function_schema.parse_args(self._tool_call(...))\<close>: the schema reads the generator
  as long as it wants more fragments; \<open>acc\<close> is what it has received. The flag tells
  whether no assertion of the generator failed.
\<close>

function read_args ::
  "'item StreamParser \<Rightarrow> ('o, 'e) FunctionSchema \<Rightarrow> string \<Rightarrow> string list \<Rightarrow> call_gen \<Rightarrow>
     'item heap \<Rightarrow> string list \<times> bool \<times> call_gen \<times> 'item heap"
where
  "read_args P S i acc g h =
     (if wants_more S acc then
        (case tool_call_next P i g h of
           (Yielded a, g', h') \<Rightarrow> read_args P S i (acc @ [a]) g' h'
         | (StopIteration, g', h') \<Rightarrow> (acc, True, g', h')
         | (AssertionFailed, g', h') \<Rightarrow> (acc, False, g', h'))
      else (acc, True, g, h))"
  by pat_completeness auto
termination
  by (relation "measure (\<lambda>(P, S, i, acc, g, h). chunk_weight P h)")
     (auto dest: tool_call_next_decreases [OF sym])

declare read_args.simps [simp del]

text \<open>
  Modelled from the spec: the typed outputs and \<^verbatim>\<open>consume\<close> are not among the sources.
  By the spec a typed value that "did not consume the fragment sequence to exhaustion
  itself, must be drainable as an argument-fragment sequence": iterating an iterable
  output pulls the generator \<^verbatim>\<open>_tool_call\<close> it was parsed from. The consumer's reading
  makes \<open>k\<close> calls of \<^verbatim>\<open>next\<close> reach that generator; \<^verbatim>\<open>consume(output)\<close> pulls it until
  \<^verbatim>\<open>StopIteration\<close>.
\<close>

fun tool_call_pulls ::
  "nat \<Rightarrow> 'item StreamParser \<Rightarrow> string \<Rightarrow> call_gen \<Rightarrow> 'item heap \<Rightarrow> bool \<times> call_gen \<times> 'item heap"
where
  "tool_call_pulls 0 P i g h = (True, g, h)"
| "tool_call_pulls (Suc k) P i g h =
     (case tool_call_next P i g h of
        (Yielded a, g', h') \<Rightarrow> tool_call_pulls k P i g' h'
      | (StopIteration, g', h') \<Rightarrow> (True, g', h')
      | (AssertionFailed, g', h') \<Rightarrow> (False, g', h'))"

function tool_call_consume ::
  "'item StreamParser \<Rightarrow> string \<Rightarrow> call_gen \<Rightarrow> 'item heap \<Rightarrow> bool \<times> call_gen \<times> 'item heap"
where
  "tool_call_consume P i g h =
     (case tool_call_next P i g h of
        (Yielded a, g', h') \<Rightarrow> tool_call_consume P i g' h'
      | (StopIteration, g', h') \<Rightarrow> (True, g', h')
      | (AssertionFailed, g', h') \<Rightarrow> (False, g', h'))"
  by pat_completeness auto
termination
  by (relation "measure (\<lambda>(P, i, g, h). chunk_weight P h)")
     (auto dest: tool_call_next_decreases [OF sym])

declare tool_call_consume.simps [simp del]

text \<open>
  Modelled from the spec: \<^verbatim>\<open>select_function_schema\<close> of \<^verbatim>\<open>function_schema.py\<close> is not
  among the sources. By the spec it is a "first-match lookup by declared name".
\<close>

definition select_function_schema ::
  "('o, 'e) FunctionSchema list \<Rightarrow> string \<Rightarrow> ('o, 'e) FunctionSchema option" where
  "select_function_schema schemas nm = find (\<lambda>S. schema_name S = nm) schemas"

section \<open>The generator \<^verbatim>\<open>__stream__\<close>\<close>

text \<open>
  The consumer is the number of calls of \<^verbatim>\<open>next\<close> it makes on the fragments of each
  segment, by the segment's index, before it asks the engine for the next segment.

  One pass of a loop body gives the segments it yielded, the error it raised if any, and
  the heap.
\<close>

type_synonym consumer = "nat \<Rightarrow> nat"

text \<open>Lines 130 to 136: the Text Segment of an event classified as content.\<close>

definition text_group ::
  "'item StreamParser \<Rightarrow> nat \<Rightarrow> 'item \<Rightarrow> 'item heap \<Rightarrow>
     'o segment list \<times> ('item, 'e) error option \<times> 'item heap"
where
  "text_group P k current_item h =
     (case streamed_str_pulls k P (Running None) (h\<lparr>stream := Chained current_item # stream h\<rparr>) of
        (taken, ok, g, h1) \<Rightarrow>
          if \<not> ok then ([Text taken []], Some AssertionError, h1)
          else if current_item_ref h1 = [] \<and> \<not> exhausted h1 then
            (case streamed_str_consume P g h1 of
               (drained, ok', g', h2) \<Rightarrow>
                 ([Text taken drained], if ok' then None else Some AssertionError, h2))
          else ([Text taken []], None, h1))"

text \<open>Lines 145 to 182: one pass of the inner loop, for the chunk popped from
  \<^verbatim>\<open>tool_call_ref\<close>.\<close>

definition tool_group ::
  "('item, 'o, 'e) OutputStream \<Rightarrow> nat \<Rightarrow> 'item heap \<Rightarrow>
     'o segment list \<times> ('item, 'e) error option \<times> 'item heap"
where
  "tool_group E k h =
     (let current_tool_call_chunk = last (tool_call_ref h);
          h1 = h\<lparr>tool_call_ref := butlast (tool_call_ref h)\<rparr>
      in case chunk_id current_tool_call_chunk of
           None \<Rightarrow> ([], Some AssertionError, h1)
         | Some current_tool_call_id \<Rightarrow>
       (case chunk_name current_tool_call_chunk of
           None \<Rightarrow> ([], Some AssertionError, h1)
         | Some nm \<Rightarrow>
       (case select_function_schema (function_schemas E) nm of
           None \<Rightarrow> ([], Some (UnknownToolError (updated h1) current_tool_call_id nm), h1)
         | Some function_schema \<Rightarrow>
       (case read_args (parser E) function_schema current_tool_call_id [] Active
               (h1\<lparr>tool_calls_stream := current_tool_call_chunk # tool_calls_stream h1\<rparr>) of
           (acc, ok, g, h2) \<Rightarrow>
             if \<not> ok then ([], Some AssertionError, h2)
             else
       (case validate function_schema acc of
           Inl e \<Rightarrow> ([], Some (ToolSchemaParseError (updated h2) current_tool_call_id e), h2)
         | Inr output \<Rightarrow>
       (case tool_call_pulls (if output_iterable E output then k else 0) (parser E)
               current_tool_call_id g h2 of
           (ok', g', h3) \<Rightarrow>
             if \<not> ok' then ([Structured output], Some AssertionError, h3)
             else if tool_call_ref h3 = [] \<and> \<not> exhausted h3 then
               (if \<not> output_iterable E output then ([Structured output], Some AssertionError, h3)
                else
                  (case tool_call_consume (parser E) current_tool_call_id g' h3 of
                     (ok'', g'', h4) \<Rightarrow>
                       ([Structured output], if ok'' then None else Some AssertionError, h4)))
             else ([Structured output], None, h3)))))))"

text \<open>
  The inner loop \<^verbatim>\<open>while tool_call_ref\<close>. Each pass takes one unit of fuel; the loop
  may not end, so running out of fuel is an outcome of its own.
\<close>

fun tool_loop ::
  "nat \<Rightarrow> ('item, 'o, 'e) OutputStream \<Rightarrow> consumer \<Rightarrow> 'o segment list \<Rightarrow> 'item heap \<Rightarrow>
     'o segment list \<times> 'item heap \<times> ('item, 'e) outcome"
where
  "tool_loop 0 E c segs h =
     (if tool_call_ref h = [] then (segs, h, Completed) else (segs, h, OutOfFuel))"
| "tool_loop (Suc n) E c segs h =
     (if tool_call_ref h = [] then (segs, h, Completed)
      else
        (case tool_group E (c (length segs)) h of
           (out, Some err, h') \<Rightarrow> (segs @ out, h', Raised err)
         | (out, None, h') \<Rightarrow> tool_loop n E c (segs @ out) h'))"

text \<open>
  The outer loop \<^verbatim>\<open>while current_item_ref\<close>. In the tool-call branch,
  \<^verbatim>\<open>next(tool_calls_stream)\<close> with no chunk left raises \<^verbatim>\<open>StopIteration\<close> inside the
  generator \<^verbatim>\<open>__stream__\<close>, which Python turns into a \<^verbatim>\<open>RuntimeError\<close>. In the last
  branch \<^verbatim>\<open>elif new_current_item := next(stream, None)\<close> pulls an event, so that it is
  updated, and tests its truth value: nothing is appended when the stream is exhausted
  and also when the event pulled is false in Python, and the loop then ends.
\<close>

fun stream_loop ::
  "nat \<Rightarrow> ('item, 'o, 'e) OutputStream \<Rightarrow> consumer \<Rightarrow> 'o segment list \<Rightarrow> 'item heap \<Rightarrow>
     'o segment list \<times> 'item heap \<times> ('item, 'e) outcome"
where
  "stream_loop 0 E c segs h =
     (if current_item_ref h = [] then (segs, h, Completed) else (segs, h, OutOfFuel))"
| "stream_loop (Suc n) E c segs h =
     (if current_item_ref h = [] then (segs, h, Completed)
      else
        (let current_item = last (current_item_ref h);
             h1 = h\<lparr>current_item_ref := butlast (current_item_ref h)\<rparr>
         in if is_content (parser E) current_item then
              (case text_group (parser E) (c (length segs)) current_item h1 of
                 (out, Some err, h') \<Rightarrow> (segs @ out, h', Raised err)
               | (out, None, h') \<Rightarrow> stream_loop n E c (segs @ out) h')
            else if is_tool_call (parser E) current_item then
              (case next_chunk (parser E)
                      (h1\<lparr>stream := Chained current_item # stream h1, tool_calls_stream := []\<rparr>) of
                 (None, h2) \<Rightarrow> (segs, h2, Raised RuntimeError)
               | (Some tool_call_chunk, h2) \<Rightarrow>
                   (case tool_loop n E c segs (h2\<lparr>tool_call_ref := [tool_call_chunk]\<rparr>) of
                      (segs', h3, Completed) \<Rightarrow> stream_loop n E c segs' h3
                    | (segs', h3, out) \<Rightarrow> (segs', h3, out)))
            else
              (case next_item h1 of
                 None \<Rightarrow> stream_loop n E c segs h1
               | Some (new_current_item, h2) \<Rightarrow>
                   if item_truthy E new_current_item then
                     stream_loop n E c segs
                       (h2\<lparr>current_item_ref := current_item_ref h2 @ [new_current_item]\<rparr>)
                   else stream_loop n E c segs h2)))"

text \<open>
  \<^verbatim>\<open>OutputStream.__stream__\<close> on a source, driven by a consumer that asks for segments
  until the engine stops: the segments yielded, the final heap, and how it ended.
  \<^verbatim>\<open>next(stream)\<close> on an empty source is again a \<^verbatim>\<open>RuntimeError\<close>.
\<close>

definition initial_heap :: "'item list \<Rightarrow> 'item heap" where
  "initial_heap source =
     \<lparr>stream = map Fresh source, tool_calls_stream = [], updated = [], exhausted = False,
      current_item_ref = [], tool_call_ref = []\<rparr>"

definition OutputStream_stream ::
  "nat \<Rightarrow> ('item, 'o, 'e) OutputStream \<Rightarrow> consumer \<Rightarrow> 'item list \<Rightarrow>
     'o segment list \<times> 'item heap \<times> ('item, 'e) outcome"
where
  "OutputStream_stream n E c source =
     (case next_item (initial_heap source) of
        None \<Rightarrow> ([], initial_heap source, Raised RuntimeError)
      | Some (item, h) \<Rightarrow> stream_loop n E c [] (h\<lparr>current_item_ref := [item]\<rparr>))"

section \<open>The cooperative engine \<^verbatim>\<open>AsyncOutputStream\<close>\<close>

text \<open>
  The class \<^verbatim>\<open>AsyncOutputStream\<close> (lines 191 to 310) is code of its own, translated here
  on its own, each function next to a proof that it computes what its blocking
  counterpart computes. The engine runs on one logical thread and has one reader: an
  \<^verbatim>\<open>await\<close> gives control away and comes back with the awaited value, and nothing else
  touches the engine's variables meanwhile, so an \<^verbatim>\<open>await\<close> is read as the call it
  awaits; where the engine is suspended is not part of the model. \<^verbatim>\<open>aapply\<close>,
  \<^verbatim>\<open>achain\<close>, \<^verbatim>\<open>async_iter\<close> and \<^verbatim>\<open>aconsume\<close> are read as \<^verbatim>\<open>apply\<close>, \<^verbatim>\<open>chain\<close>, a
  list and \<^verbatim>\<open>consume\<close> are, and \<^verbatim>\<open>aparse_args\<close> of a schema is the reader that
  \<^verbatim>\<open>parse_args\<close> of the same schema is. \<^verbatim>\<open>await anext(stream)\<close> with nothing left raises
  \<^verbatim>\<open>StopAsyncIteration\<close> inside the asynchronous generator, again a \<^verbatim>\<open>RuntimeError\<close>.
  The walrus of line 305 tests the truth value of the event pulled, as line 183 does.
\<close>

definition anext_item :: "'item heap \<Rightarrow> ('item \<times> 'item heap) option" where
  "anext_item h =
     (case stream h of
        [] \<Rightarrow> None
      | Fresh x # cs \<Rightarrow> Some (x, h\<lparr>stream := cs, updated := updated h @ [x]\<rparr>)
      | Chained x # cs \<Rightarrow> Some (x, h\<lparr>stream := cs\<rparr>))"

lemma anext_item_eq: "anext_item h = next_item h"
  by (simp add: anext_item_def next_item_def)

function astreamed_str_next ::
  "'item StreamParser \<Rightarrow> 'item str_gen \<Rightarrow> 'item heap \<Rightarrow> string pulled \<times> 'item str_gen \<times> 'item heap"
where
  "astreamed_str_next P Finished h = (StopIteration, Finished, h)"
| "astreamed_str_next P (Running (Some item)) h =
     (if is_tool_call P item then
        (if current_item_ref h \<noteq> [] then (AssertionFailed, Finished, h)
         else (StopIteration, Finished, h\<lparr>current_item_ref := current_item_ref h @ [item]\<rparr>))
      else astreamed_str_next P (Running None) h)"
| "astreamed_str_next P (Running None) h =
     (case anext_item h of
        None \<Rightarrow> (StopIteration, Finished, h\<lparr>exhausted := True\<rparr>)
      | Some (item, h') \<Rightarrow>
          (if truthy (get_content P item)
           then (Yielded (the (get_content P item)), Running (Some item), h')
           else astreamed_str_next P (Running (Some item)) h'))"
  by pat_completeness auto
termination
  by (relation "measure (\<lambda>(P, g, h). 2 * length (stream h) + gen_rank g)")
     (auto simp: anext_item_eq dest: next_item_length)

lemma astreamed_str_next_eq: "astreamed_str_next P g h = streamed_str_next P g h"
proof (induction P g h rule: streamed_str_next.induct)
  case (1 P h)
  show ?case by simp
next
  case (2 P item h)
  then show ?case by simp
next
  case (3 P h)
  show ?case
  proof (cases "next_item h")
    case None
    then show ?thesis by (simp add: anext_item_eq)
  next
    case (Some p)
    obtain item h1 where p: "p = (item, h1)" by (cases p)
    from "3.IH" [OF Some [unfolded p] refl] Some p show ?thesis
      by (simp add: anext_item_eq)
  qed
qed

fun astreamed_str_pulls ::
  "nat \<Rightarrow> 'item StreamParser \<Rightarrow> 'item str_gen \<Rightarrow> 'item heap \<Rightarrow>
     string list \<times> bool \<times> 'item str_gen \<times> 'item heap"
where
  "astreamed_str_pulls 0 P g h = ([], True, g, h)"
| "astreamed_str_pulls (Suc k) P g h =
     (case astreamed_str_next P g h of
        (Yielded s, g', h') \<Rightarrow>
          (case astreamed_str_pulls k P g' h' of (ss, ok, g'', h'') \<Rightarrow> (s # ss, ok, g'', h''))
      | (StopIteration, g', h') \<Rightarrow> ([], True, g', h')
      | (AssertionFailed, g', h') \<Rightarrow> ([], False, g', h'))"

lemma astreamed_str_pulls_eq: "astreamed_str_pulls k P g h = streamed_str_pulls k P g h"
  by (induction k arbitrary: g h)
     (simp_all add: astreamed_str_next_eq split: prod.splits pulled.splits)

text \<open>
  Modelled from the spec: \<^verbatim>\<open>aconsume\<close> and \<^verbatim>\<open>AsyncStreamedStr\<close> of
  \<^verbatim>\<open>magentic/streaming.py\<close> are not among the sources; as for the blocking engine,
  \<^verbatim>\<open>aconsume(streamed_str)\<close> pulls the generator until it stops.
\<close>

function astreamed_str_consume ::
  "'item StreamParser \<Rightarrow> 'item str_gen \<Rightarrow> 'item heap \<Rightarrow>
     string list \<times> bool \<times> 'item str_gen \<times> 'item heap"
where
  "astreamed_str_consume P g h =
     (case astreamed_str_next P g h of
        (Yielded s, g', h') \<Rightarrow>
          (case astreamed_str_consume P g' h' of (ss, ok, g'', h'') \<Rightarrow> (s # ss, ok, g'', h''))
      | (StopIteration, g', h') \<Rightarrow> ([], True, g', h')
      | (AssertionFailed, g', h') \<Rightarrow> ([], False, g', h'))"
  by pat_completeness auto
termination
  by (relation "measure (\<lambda>(P, g, h). 2 * length (stream h) + gen_rank g)")
     (auto simp: astreamed_str_next_eq dest: streamed_str_next_decreases [OF sym])

declare astreamed_str_consume.simps [simp del]

lemma astreamed_str_consume_eq: "astreamed_str_consume P g h = streamed_str_consume P g h"
proof (induction P g h rule: streamed_str_consume.induct)
  case (1 P g h)
  obtain r g2 h2 where nx: "streamed_str_next P g h = (r, g2, h2)"
    by (cases "streamed_str_next P g h")
  show ?case
  proof (cases r)
    case (Yielded s)
    from nx Yielded have nx': "(Yielded s, g2, h2) = streamed_str_next P g h" by simp
    from "1.IH" [OF nx' refl refl] nx Yielded show ?thesis
      by (simp add: astreamed_str_consume.simps [of P g h] streamed_str_consume.simps [of P g h]
          astreamed_str_next_eq)
  next
    case StopIteration
    with nx show ?thesis
      by (simp add: astreamed_str_consume.simps [of P g h] streamed_str_consume.simps [of P g h]
          astreamed_str_next_eq)
  next
    case AssertionFailed
    with nx show ?thesis
      by (simp add: astreamed_str_consume.simps [of P g h] streamed_str_consume.simps [of P g h]
          astreamed_str_next_eq)
  qed
qed

function anext_chunk ::
  "'item StreamParser \<Rightarrow> 'item heap \<Rightarrow> FunctionCallChunk option \<times> 'item heap"
where
  "anext_chunk P h =
     (case tool_calls_stream h of
        c # cs \<Rightarrow> (Some c, h\<lparr>tool_calls_stream := cs\<rparr>)
      | [] \<Rightarrow>
          (case anext_item h of
             None \<Rightarrow> (None, h)
           | Some (item, h') \<Rightarrow> anext_chunk P (h'\<lparr>tool_calls_stream := iter_tool_calls P item\<rparr>)))"
  by pat_completeness auto
termination
  by (relation "measure (\<lambda>(P, h). length (stream h))")
     (auto simp: anext_item_eq dest: next_item_length)

declare anext_chunk.simps [simp del]

lemma anext_chunk_eq: "anext_chunk P h = next_chunk P h"
proof (induction P h rule: next_chunk.induct)
  case (1 P h)
  show ?case
  proof (cases "tool_calls_stream h")
    case (Cons d ds)
    then show ?thesis by (simp add: anext_chunk.simps [of P h] next_chunk.simps [of P h])
  next
    case Nil
    show ?thesis
    proof (cases "next_item h")
      case None
      with Nil show ?thesis
        by (simp add: anext_chunk.simps [of P h] next_chunk.simps [of P h] anext_item_eq)
    next
      case (Some p)
      obtain item h1 where p: "p = (item, h1)" by (cases p)
      from "1.IH" [OF Nil Some [unfolded p] refl] Nil Some p show ?thesis
        by (simp add: anext_chunk.simps [of P h] next_chunk.simps [of P h] anext_item_eq)
    qed
  qed
qed

function atool_call_next ::
  "'item StreamParser \<Rightarrow> string \<Rightarrow> call_gen \<Rightarrow> 'item heap \<Rightarrow> string pulled \<times> call_gen \<times> 'item heap"
where
  "atool_call_next P current_tool_call_id Done h = (StopIteration, Done, h)"
| "atool_call_next P current_tool_call_id Active h =
     (case anext_chunk P h of
        (None, h') \<Rightarrow> (StopIteration, Done, h'\<lparr>exhausted := True\<rparr>)
      | (Some item, h') \<Rightarrow>
          (if truthy (chunk_id item) \<and> chunk_id item \<noteq> Some current_tool_call_id then
             (if tool_call_ref h' \<noteq> [] then (AssertionFailed, Done, h')
              else (StopIteration, Done, h'\<lparr>tool_call_ref := tool_call_ref h' @ [item]\<rparr>))
           else if truthy (chunk_args item) then (Yielded (the (chunk_args item)), Active, h')
           else atool_call_next P current_tool_call_id Active h'))"
  by pat_completeness auto
termination
  by (relation "measure (\<lambda>(P, i, g, h). chunk_weight P h)")
     (auto simp: anext_chunk_eq dest: next_chunk_decreases [OF sym])

declare atool_call_next.simps(2) [simp del]

lemma atool_call_next_eq: "atool_call_next P i g h = tool_call_next P i g h"
proof (induction P i g h rule: tool_call_next.induct)
  case (1 P i h)
  show ?case by simp
next
  case (2 P i h)
  obtain q h1 where nc: "next_chunk P h = (q, h1)" by (cases "next_chunk P h")
  show ?case
  proof (cases q)
    case None
    with nc show ?thesis
      by (simp add: atool_call_next.simps(2) [of P i h] tool_call_next.simps(2) [of P i h]
          anext_chunk_eq)
  next
    case (Some c)
    show ?thesis
    proof (cases "\<not> (truthy (chunk_id c) \<and> chunk_id c \<noteq> Some i) \<and> \<not> truthy (chunk_args c)")
      case True
      then have a: "\<not> (truthy (chunk_id c) \<and> chunk_id c \<noteq> Some i)" and b: "\<not> truthy (chunk_args c)"
        by simp_all
      from "2.IH" [OF nc [symmetric, unfolded Some] refl a b] nc Some a b show ?thesis
        by (auto simp: atool_call_next.simps(2) [of P i h] tool_call_next.simps(2) [of P i h]
            anext_chunk_eq)
    next
      case False
      with nc Some show ?thesis
        by (auto simp: atool_call_next.simps(2) [of P i h] tool_call_next.simps(2) [of P i h]
            anext_chunk_eq)
    qed
  qed
qed

function aread_args ::
  "'item StreamParser \<Rightarrow> ('o, 'e) FunctionSchema \<Rightarrow> string \<Rightarrow> string list \<Rightarrow> call_gen \<Rightarrow>
     'item heap \<Rightarrow> string list \<times> bool \<times> call_gen \<times> 'item heap"
where
  "aread_args P S i acc g h =
     (if wants_more S acc then
        (case atool_call_next P i g h of
           (Yielded a, g', h') \<Rightarrow> aread_args P S i (acc @ [a]) g' h'
         | (StopIteration, g', h') \<Rightarrow> (acc, True, g', h')
         | (AssertionFailed, g', h') \<Rightarrow> (acc, False, g', h'))
      else (acc, True, g, h))"
  by pat_completeness auto
termination
  by (relation "measure (\<lambda>(P, S, i, acc, g, h). chunk_weight P h)")
     (auto simp: atool_call_next_eq dest: tool_call_next_decreases [OF sym])

declare aread_args.simps [simp del]

lemma aread_args_eq: "aread_args P S i acc g h = read_args P S i acc g h"
proof (induction P S i acc g h rule: read_args.induct)
  case (1 P S i acc g h)
  show ?case
  proof (cases "wants_more S acc")
    case False
    then show ?thesis
      by (simp add: aread_args.simps [of P S i acc g h] read_args.simps [of P S i acc g h])
  next
    case True
    obtain r g2 h2 where nx: "tool_call_next P i g h = (r, g2, h2)"
      by (cases "tool_call_next P i g h")
    show ?thesis
    proof (cases r)
      case (Yielded a)
      from nx Yielded have nx': "(Yielded a, g2, h2) = tool_call_next P i g h" by simp
      from "1.IH" [OF True nx' refl refl] True nx Yielded show ?thesis
        by (simp add: aread_args.simps [of P S i acc g h] read_args.simps [of P S i acc g h]
            atool_call_next_eq)
    next
      case StopIteration
      with True nx show ?thesis
        by (simp add: aread_args.simps [of P S i acc g h] read_args.simps [of P S i acc g h]
            atool_call_next_eq)
    next
      case AssertionFailed
      with True nx show ?thesis
        by (simp add: aread_args.simps [of P S i acc g h] read_args.simps [of P S i acc g h]
            atool_call_next_eq)
    qed
  qed
qed

text \<open>
  Modelled from the spec: the typed outputs and \<^verbatim>\<open>aconsume\<close> are not among the sources;
  as for the blocking engine, iterating an output pulls the generator it was parsed
  from, and \<^verbatim>\<open>aconsume(output)\<close> pulls it until it stops.
\<close>

fun atool_call_pulls ::
  "nat \<Rightarrow> 'item StreamParser \<Rightarrow> string \<Rightarrow> call_gen \<Rightarrow> 'item heap \<Rightarrow> bool \<times> call_gen \<times> 'item heap"
where
  "atool_call_pulls 0 P i g h = (True, g, h)"
| "atool_call_pulls (Suc k) P i g h =
     (case atool_call_next P i g h of
        (Yielded a, g', h') \<Rightarrow> atool_call_pulls k P i g' h'
      | (StopIteration, g', h') \<Rightarrow> (True, g', h')
      | (AssertionFailed, g', h') \<Rightarrow> (False, g', h'))"

lemma atool_call_pulls_eq: "atool_call_pulls k P i g h = tool_call_pulls k P i g h"
  by (induction k arbitrary: g h)
     (simp_all add: atool_call_next_eq split: prod.splits pulled.splits)

function atool_call_consume ::
  "'item StreamParser \<Rightarrow> string \<Rightarrow> call_gen \<Rightarrow> 'item heap \<Rightarrow> bool \<times> call_gen \<times> 'item heap"
where
  "atool_call_consume P i g h =
     (case atool_call_next P i g h of
        (Yielded a, g', h') \<Rightarrow> atool_call_consume P i g' h'
      | (StopIteration, g', h') \<Rightarrow> (True, g', h')
      | (AssertionFailed, g', h') \<Rightarrow> (False, g', h'))"
  by pat_completeness auto
termination
  by (relation "measure (\<lambda>(P, i, g, h). chunk_weight P h)")
     (auto simp: atool_call_next_eq dest: tool_call_next_decreases [OF sym])

declare atool_call_consume.simps [simp del]

lemma atool_call_consume_eq: "atool_call_consume P i g h = tool_call_consume P i g h"
proof (induction P i g h rule: tool_call_consume.induct)
  case (1 P i g h)
  obtain r g2 h2 where nx: "tool_call_next P i g h = (r, g2, h2)"
    by (cases "tool_call_next P i g h")
  show ?case
  proof (cases r)
    case (Yielded a)
    from nx Yielded have nx': "(Yielded a, g2, h2) = tool_call_next P i g h" by simp
    from "1.IH" [OF nx' refl refl] nx Yielded show ?thesis
      by (simp add: atool_call_consume.simps [of P i g h] tool_call_consume.simps [of P i g h]
          atool_call_next_eq)
  next
    case StopIteration
    with nx show ?thesis
      by (simp add: atool_call_consume.simps [of P i g h] tool_call_consume.simps [of P i g h]
          atool_call_next_eq)
  next
    case AssertionFailed
    with nx show ?thesis
      by (simp add: atool_call_consume.simps [of P i g h] tool_call_consume.simps [of P i g h]
          atool_call_next_eq)
  qed
qed

definition atext_group ::
  "'item StreamParser \<Rightarrow> nat \<Rightarrow> 'item \<Rightarrow> 'item heap \<Rightarrow>
     'o segment list \<times> ('item, 'e) error option \<times> 'item heap"
where
  "atext_group P k current_item h =
     (case astreamed_str_pulls k P (Running None) (h\<lparr>stream := Chained current_item # stream h\<rparr>) of
        (taken, ok, g, h1) \<Rightarrow>
          if \<not> ok then ([Text taken []], Some AssertionError, h1)
          else if current_item_ref h1 = [] \<and> \<not> exhausted h1 then
            (case astreamed_str_consume P g h1 of
               (drained, ok', g', h2) \<Rightarrow>
                 ([Text taken drained], if ok' then None else Some AssertionError, h2))
          else ([Text taken []], None, h1))"

definition atool_group ::
  "('item, 'o, 'e) OutputStream \<Rightarrow> nat \<Rightarrow> 'item heap \<Rightarrow>
     'o segment list \<times> ('item, 'e) error option \<times> 'item heap"
where
  "atool_group E k h =
     (let current_tool_call_chunk = last (tool_call_ref h);
          h1 = h\<lparr>tool_call_ref := butlast (tool_call_ref h)\<rparr>
      in case chunk_id current_tool_call_chunk of
           None \<Rightarrow> ([], Some AssertionError, h1)
         | Some current_tool_call_id \<Rightarrow>
       (case chunk_name current_tool_call_chunk of
           None \<Rightarrow> ([], Some AssertionError, h1)
         | Some nm \<Rightarrow>
       (case select_function_schema (function_schemas E) nm of
           None \<Rightarrow> ([], Some (UnknownToolError (updated h1) current_tool_call_id nm), h1)
         | Some function_schema \<Rightarrow>
       (case aread_args (parser E) function_schema current_tool_call_id [] Active
               (h1\<lparr>tool_calls_stream := current_tool_call_chunk # tool_calls_stream h1\<rparr>) of
           (acc, ok, g, h2) \<Rightarrow>
             if \<not> ok then ([], Some AssertionError, h2)
             else
       (case validate function_schema acc of
           Inl e \<Rightarrow> ([], Some (ToolSchemaParseError (updated h2) current_tool_call_id e), h2)
         | Inr output \<Rightarrow>
       (case atool_call_pulls (if output_iterable E output then k else 0) (parser E)
               current_tool_call_id g h2 of
           (ok', g', h3) \<Rightarrow>
             if \<not> ok' then ([Structured output], Some AssertionError, h3)
             else if tool_call_ref h3 = [] \<and> \<not> exhausted h3 then
               (if \<not> output_iterable E output then ([Structured output], Some AssertionError, h3)
                else
                  (case atool_call_consume (parser E) current_tool_call_id g' h3 of
                     (ok'', g'', h4) \<Rightarrow>
                       ([Structured output], if ok'' then None else Some AssertionError, h4)))
             else ([Structured output], None, h3)))))))"

fun atool_loop ::
  "nat \<Rightarrow> ('item, 'o, 'e) OutputStream \<Rightarrow> consumer \<Rightarrow> 'o segment list \<Rightarrow> 'item heap \<Rightarrow>
     'o segment list \<times> 'item heap \<times> ('item, 'e) outcome"
where
  "atool_loop 0 E c segs h =
     (if tool_call_ref h = [] then (segs, h, Completed) else (segs, h, OutOfFuel))"
| "atool_loop (Suc n) E c segs h =
     (if tool_call_ref h = [] then (segs, h, Completed)
      else
        (case atool_group E (c (length segs)) h of
           (out, Some err, h') \<Rightarrow> (segs @ out, h', Raised err)
         | (out, None, h') \<Rightarrow> atool_loop n E c (segs @ out) h'))"

fun astream_loop ::
  "nat \<Rightarrow> ('item, 'o, 'e) OutputStream \<Rightarrow> consumer \<Rightarrow> 'o segment list \<Rightarrow> 'item heap \<Rightarrow>
     'o segment list \<times> 'item heap \<times> ('item, 'e) outcome"
where
  "astream_loop 0 E c segs h =
     (if current_item_ref h = [] then (segs, h, Completed) else (segs, h, OutOfFuel))"
| "astream_loop (Suc n) E c segs h =
     (if current_item_ref h = [] then (segs, h, Completed)
      else
        (let current_item = last (current_item_ref h);
             h1 = h\<lparr>current_item_ref := butlast (current_item_ref h)\<rparr>
         in if is_content (parser E) current_item then
              (case atext_group (parser E) (c (length segs)) current_item h1 of
                 (out, Some err, h') \<Rightarrow> (segs @ out, h', Raised err)
               | (out, None, h') \<Rightarrow> astream_loop n E c (segs @ out) h')
            else if is_tool_call (parser E) current_item then
              (case anext_chunk (parser E)
                      (h1\<lparr>stream := Chained current_item # stream h1, tool_calls_stream := []\<rparr>) of
                 (None, h2) \<Rightarrow> (segs, h2, Raised RuntimeError)
               | (Some tool_call_chunk, h2) \<Rightarrow>
                   (case atool_loop n E c segs (h2\<lparr>tool_call_ref := [tool_call_chunk]\<rparr>) of
                      (segs', h3, Completed) \<Rightarrow> astream_loop n E c segs' h3
                    | (segs', h3, out) \<Rightarrow> (segs', h3, out)))
            else
              (case anext_item h1 of
                 None \<Rightarrow> astream_loop n E c segs h1
               | Some (new_current_item, h2) \<Rightarrow>
                   if item_truthy E new_current_item then
                     astream_loop n E c segs
                       (h2\<lparr>current_item_ref := current_item_ref h2 @ [new_current_item]\<rparr>)
                   else astream_loop n E c segs h2)))"

definition AsyncOutputStream_stream ::
  "nat \<Rightarrow> ('item, 'o, 'e) OutputStream \<Rightarrow> consumer \<Rightarrow> 'item list \<Rightarrow>
     'o segment list \<times> 'item heap \<times> ('item, 'e) outcome"
where
  "AsyncOutputStream_stream n E c source =
     (case anext_item (initial_heap source) of
        None \<Rightarrow> ([], initial_heap source, Raised RuntimeError)
      | Some (item, h) \<Rightarrow> astream_loop n E c [] (h\<lparr>current_item_ref := [item]\<rparr>))"

lemma atext_group_eq:
  "(atext_group P k x h :: 'o segment list \<times> ('item, 'e) error option \<times> 'item heap) =
     text_group P k x h"
  unfolding atext_group_def text_group_def astreamed_str_pulls_eq astreamed_str_consume_eq ..

lemma atool_group_eq: "atool_group E k h = tool_group E k h"
  unfolding atool_group_def tool_group_def aread_args_eq atool_call_pulls_eq
    atool_call_consume_eq ..

lemma atool_loop_eq: "atool_loop n E c segs h = tool_loop n E c segs h"
proof (induction n arbitrary: segs h)
  case 0
  show ?case by simp
next
  case (Suc n)
  show ?case unfolding atool_loop.simps tool_loop.simps atool_group_eq Suc.IH ..
qed

lemma astream_loop_eq: "astream_loop n E c segs h = stream_loop n E c segs h"
proof (induction n arbitrary: segs h)
  case 0
  show ?case by simp
next
  case (Suc n)
  show ?case
    unfolding astream_loop.simps stream_loop.simps atext_group_eq atool_loop_eq anext_chunk_eq
      anext_item_eq Suc.IH ..
qed

section \<open>What the generators read\<close>

text \<open>
  The events of a stream that \<^verbatim>\<open>State.update\<close> has not seen yet, the chunks the
  flattened chunk stream has still to deliver, the test of \<^verbatim>\<open>_tool_call\<close> for the first
  chunk of another call, and the argument fragments of the call with id \<open>i\<close> in a chunk
  sequence: the non-empty \<^verbatim>\<open>args\<close>, in order, of the chunks before the first chunk of
  another call.
\<close>

fun fresh :: "'item cell list \<Rightarrow> 'item list" where
  "fresh [] = []"
| "fresh (Fresh x # cs) = x # fresh cs"
| "fresh (Chained x # cs) = fresh cs"

definition chunks_ahead :: "'item StreamParser \<Rightarrow> 'item heap \<Rightarrow> FunctionCallChunk list" where
  "chunks_ahead P h =
     tool_calls_stream h @ concat (map (\<lambda>c. iter_tool_calls P (item_of c)) (stream h))"

definition new_call :: "string \<Rightarrow> FunctionCallChunk \<Rightarrow> bool" where
  "new_call i c = (case chunk_id c of None \<Rightarrow> False | Some j \<Rightarrow> j \<noteq> [] \<and> j \<noteq> i)"

definition call_args :: "string \<Rightarrow> FunctionCallChunk list \<Rightarrow> string list" where
  "call_args i cs =
     map (\<lambda>c. the (chunk_args c))
       (filter (\<lambda>c. truthy (chunk_args c)) (takeWhile (\<lambda>c. \<not> new_call i c) cs))"

lemma new_call_iff: "new_call i c \<longleftrightarrow> truthy (chunk_id c) \<and> chunk_id c \<noteq> Some i"
  by (auto simp: new_call_def truthy_def split: option.splits)

lemma chunks_ahead_update [simp]:
  "chunks_ahead P (h\<lparr>tool_call_ref := r\<rparr>) = chunks_ahead P h"
  "chunks_ahead P (h\<lparr>exhausted := b\<rparr>) = chunks_ahead P h"
  "chunks_ahead P (h\<lparr>current_item_ref := q\<rparr>) = chunks_ahead P h"
  "chunks_ahead P (h\<lparr>updated := u\<rparr>) = chunks_ahead P h"
  by (simp_all add: chunks_ahead_def)

lemma next_item_Some:
  assumes "next_item h = Some (x, h')"
  shows "\<exists>c. stream h = c # stream h' \<and> item_of c = x"
    and "updated h' @ fresh (stream h') = updated h @ fresh (stream h)"
    and "tool_calls_stream h' = tool_calls_stream h"
    and "exhausted h' = exhausted h"
    and "current_item_ref h' = current_item_ref h"
    and "tool_call_ref h' = tool_call_ref h"
  using assms by (auto simp: next_item_def split: list.splits cell.splits)

lemma next_item_None: "next_item h = None \<longleftrightarrow> stream h = []"
  by (auto simp: next_item_def split: list.splits cell.splits)

lemma next_chunk_frame:
  "next_chunk P h = (r, h') \<Longrightarrow>
     updated h' @ fresh (stream h') = updated h @ fresh (stream h) \<and>
     exhausted h' = exhausted h \<and> current_item_ref h' = current_item_ref h \<and>
     tool_call_ref h' = tool_call_ref h \<and>
     (case r of None \<Rightarrow> chunks_ahead P h = [] \<and> stream h' = [] \<and> tool_calls_stream h' = []
      | Some c \<Rightarrow> chunks_ahead P h = c # chunks_ahead P h')"
proof (induction P h arbitrary: r h' rule: next_chunk.induct)
  case (1 P h)
  show ?case
  proof (cases "tool_calls_stream h")
    case (Cons d ds)
    with "1.prems" show ?thesis
      by (auto simp: next_chunk.simps [of P h] chunks_ahead_def)
  next
    case Nil
    show ?thesis
    proof (cases "next_item h")
      case None
      with Nil "1.prems" show ?thesis
        by (auto simp: next_chunk.simps [of P h] chunks_ahead_def next_item_None)
    next
      case (Some p)
      obtain item h1 where p: "p = (item, h1)" by (cases p)
      let ?h2 = "h1\<lparr>tool_calls_stream := iter_tool_calls P item\<rparr>"
      from Nil Some p "1.prems" have nc: "next_chunk P ?h2 = (r, h')"
        by (simp add: next_chunk.simps [of P h])
      note ih = "1.IH" [OF Nil Some [unfolded p] refl nc]
      note ni = next_item_Some [OF Some [unfolded p]]
      from ni(1) obtain c where c: "stream h = c # stream h1" "item_of c = item" by blast
      have ca: "chunks_ahead P h = chunks_ahead P ?h2"
        using Nil c by (simp add: chunks_ahead_def)
      from ih ni ca show ?thesis by (auto split: option.splits)
    qed
  qed
qed

lemma tool_call_next_Active:
  assumes "tool_call_next P i Active h = (r, g', h')" and "tool_call_ref h = []"
  shows "updated h' @ fresh (stream h') = updated h @ fresh (stream h) \<and>
     current_item_ref h' = current_item_ref h \<and>
     (case r of
        Yielded a \<Rightarrow> g' = Active \<and> a \<noteq> [] \<and> tool_call_ref h' = [] \<and> exhausted h' = exhausted h \<and>
          call_args i (chunks_ahead P h) = a # call_args i (chunks_ahead P h') \<and>
          dropWhile (\<lambda>c. \<not> new_call i c) (chunks_ahead P h) =
            dropWhile (\<lambda>c. \<not> new_call i c) (chunks_ahead P h')
      | StopIteration \<Rightarrow> g' = Done \<and> call_args i (chunks_ahead P h) = [] \<and>
          (case dropWhile (\<lambda>c. \<not> new_call i c) (chunks_ahead P h) of
             [] \<Rightarrow> tool_call_ref h' = [] \<and> exhausted h' \<and> stream h' = [] \<and> tool_calls_stream h' = []
           | b # rest \<Rightarrow> tool_call_ref h' = [b] \<and> exhausted h' = exhausted h \<and>
               chunks_ahead P h' = rest)
      | AssertionFailed \<Rightarrow> False)"
  using assms
proof (induction P i "Active" h arbitrary: r g' h' rule: tool_call_next.induct)
  case (2 P i h)
  obtain q h1 where nc: "next_chunk P h = (q, h1)" by (cases "next_chunk P h")
  note fr = next_chunk_frame [OF nc]
  show ?case
  proof (cases q)
    case None
    with nc "2.prems" fr show ?thesis
      by (auto simp: tool_call_next.simps(2) [of P i h] call_args_def)
  next
    case (Some c)
    with fr have ca: "chunks_ahead P h = c # chunks_ahead P h1" by simp
    show ?thesis
    proof (cases "new_call i c")
      case True
      with nc Some "2.prems" fr ca show ?thesis
        by (auto simp: tool_call_next.simps(2) [of P i h] call_args_def new_call_iff)
    next
      case False
      show ?thesis
      proof (cases "truthy (chunk_args c)")
        case True
        with False nc Some "2.prems" fr ca show ?thesis
          by (auto simp: tool_call_next.simps(2) [of P i h] call_args_def new_call_iff truthy_def
              split: option.splits)
      next
        case nargs: False
        from False nargs nc Some "2.prems" have step: "tool_call_next P i Active h1 = (r, g', h')"
          by (auto simp: tool_call_next.simps(2) [of P i h] new_call_iff)
        from False have nb: "\<not> (truthy (chunk_id c) \<and> chunk_id c \<noteq> Some i)"
          by (simp add: new_call_iff)
        from fr "2.prems" have r1: "tool_call_ref h1 = []" by simp
        note ih = "2.hyps" [OF nc [symmetric, unfolded Some] refl nb nargs step r1]
        have e1: "call_args i (chunks_ahead P h) = call_args i (chunks_ahead P h1)"
          using ca False nargs by (simp add: call_args_def)
        have e2: "dropWhile (\<lambda>c. \<not> new_call i c) (chunks_ahead P h) =
            dropWhile (\<lambda>c. \<not> new_call i c) (chunks_ahead P h1)"
          using ca False by simp
        have e3: "updated h @ fresh (stream h) = updated h1 @ fresh (stream h1)"
          and e4: "exhausted h = exhausted h1"
          and e5: "current_item_ref h = current_item_ref h1"
          using fr by simp_all
        show ?thesis unfolding e1 e2 e3 e4 e5 by (rule ih)
      qed
    qed
  qed
qed

text \<open>
  Where the generator \<^verbatim>\<open>_tool_call\<close> of the call with id \<open>i\<close> stands after it has
  delivered the fragments \<open>ys\<close>, having started on the heap \<open>h\<close>: no event is lost
  between the log and the stream, the fragments are non-empty and are the call's
  arguments so far, and a finished generator has left the first chunk of the next call
  in \<^verbatim>\<open>tool_call_ref\<close>, or has exhausted the stream.
\<close>

definition call_reads ::
  "'item StreamParser \<Rightarrow> string \<Rightarrow> 'item heap \<Rightarrow> string list \<Rightarrow> call_gen \<Rightarrow> 'item heap \<Rightarrow> bool"
where
  "call_reads P i h ys g h' =
     (updated h' @ fresh (stream h') = updated h @ fresh (stream h) \<and>
      current_item_ref h' = current_item_ref h \<and>
      list_all (\<lambda>a. a \<noteq> []) ys \<and>
      (case g of
         Active \<Rightarrow> tool_call_ref h' = [] \<and> exhausted h' = exhausted h \<and>
           call_args i (chunks_ahead P h) = ys @ call_args i (chunks_ahead P h') \<and>
           dropWhile (\<lambda>c. \<not> new_call i c) (chunks_ahead P h) =
             dropWhile (\<lambda>c. \<not> new_call i c) (chunks_ahead P h')
       | Done \<Rightarrow> call_args i (chunks_ahead P h) = ys \<and>
           (case dropWhile (\<lambda>c. \<not> new_call i c) (chunks_ahead P h) of
              [] \<Rightarrow> tool_call_ref h' = [] \<and> exhausted h' \<and> stream h' = [] \<and>
                tool_calls_stream h' = []
            | b # rest \<Rightarrow> tool_call_ref h' = [b] \<and> exhausted h' = exhausted h \<and>
                chunks_ahead P h' = rest)))"

lemma call_reads_start: "tool_call_ref h = [] \<Longrightarrow> call_reads P i h [] Active h"
  by (simp add: call_reads_def)

lemma call_reads_next:
  assumes "call_reads P i h ys Active h1" and "tool_call_next P i Active h1 = (r, g', h')"
  shows "case r of
           Yielded a \<Rightarrow> g' = Active \<and> call_reads P i h (ys @ [a]) Active h'
         | StopIteration \<Rightarrow> g' = Done \<and> call_reads P i h ys Done h'
         | AssertionFailed \<Rightarrow> False"
proof -
  from assms(1) have r1: "tool_call_ref h1 = []" by (simp add: call_reads_def)
  note st = tool_call_next_Active [OF assms(2) r1]
  show ?thesis
  proof (cases r)
    case (Yielded a)
    with st assms(1) show ?thesis by (simp add: call_reads_def)
  next
    case StopIteration
    show ?thesis
    proof (cases "dropWhile (\<lambda>c. \<not> new_call i c) (chunks_ahead P h1)")
      case Nil
      with assms(1) have d: "dropWhile (\<lambda>c. \<not> new_call i c) (chunks_ahead P h) = []"
        by (simp add: call_reads_def del: dropWhile_eq_Nil_conv)
      from StopIteration st assms(1) Nil show ?thesis
        by (auto simp: call_reads_def d simp del: dropWhile_eq_Nil_conv)
    next
      case (Cons b rest)
      with assms(1) have d: "dropWhile (\<lambda>c. \<not> new_call i c) (chunks_ahead P h) = b # rest"
        by (simp add: call_reads_def)
      from StopIteration st assms(1) Cons show ?thesis
        by (auto simp: call_reads_def d)
    qed
  next
    case AssertionFailed
    with st show ?thesis by simp
  qed
qed

lemma tool_call_next_Stop:
  "tool_call_next P i g h = (StopIteration, g', h') \<Longrightarrow> g' = Done"
proof (induction P i g h rule: tool_call_next.induct)
  case (1 P i h)
  then show ?case by simp
next
  case (2 P i h)
  obtain q h1 where nc: "next_chunk P h = (q, h1)" by (cases "next_chunk P h")
  show ?case
  proof (cases q)
    case None
    with nc "2.prems" show ?thesis by (simp add: tool_call_next.simps(2) [of P i h])
  next
    case (Some c)
    show ?thesis
    proof (cases "truthy (chunk_id c) \<and> chunk_id c \<noteq> Some i")
      case True
      with nc Some "2.prems" show ?thesis
        by (auto simp: tool_call_next.simps(2) [of P i h] split: if_splits)
    next
      case False
      show ?thesis
      proof (cases "truthy (chunk_args c)")
        case True
        with False nc Some "2.prems" show ?thesis
          by (auto simp: tool_call_next.simps(2) [of P i h])
      next
        case nargs: False
        with False nc Some "2.prems"
        have "tool_call_next P i Active h1 = (StopIteration, g', h')"
          by (auto simp: tool_call_next.simps(2) [of P i h])
        with "2.IH" [OF nc [symmetric, unfolded Some] refl False nargs] show ?thesis by simp
      qed
    qed
  qed
qed

lemma call_reads_read_args:
  assumes "read_args P S i acc g h1 = (acc', ok, g', h')" and "call_reads P i h ys g h1"
  shows "ok \<and> (\<exists>zs. acc' = acc @ zs \<and> call_reads P i h (ys @ zs) g' h')"
  using assms
proof (induction P S i acc g h1 arbitrary: ys rule: read_args.induct)
  case (1 P S i acc g h1)
  show ?case
  proof (cases "wants_more S acc")
    case False
    with "1.prems" show ?thesis by (simp add: read_args.simps [of P S i acc g h1])
  next
    case True
    show ?thesis
    proof (cases g)
      case Done
      with True "1.prems" show ?thesis
        by (auto simp: read_args.simps [of P S i acc Done h1] intro: exI [of _ "[]"])
    next
      case Active
      obtain r g2 h2 where nx: "tool_call_next P i Active h1 = (r, g2, h2)"
        by (cases "tool_call_next P i Active h1")
      from "1.prems"(2) Active have cr: "call_reads P i h ys Active h1" by simp
      note st = call_reads_next [OF cr nx]
      show ?thesis
      proof (cases r)
        case (Yielded a)
        with st have g2: "g2 = Active" and cr2: "call_reads P i h (ys @ [a]) g2 h2" by simp_all
        from True Active nx Yielded "1.prems"(1)
        have ra: "read_args P S i (acc @ [a]) g2 h2 = (acc', ok, g', h')"
          by (simp add: read_args.simps [of P S i acc Active h1])
        from nx Yielded Active have nx': "(Yielded a, g2, h2) = tool_call_next P i g h1" by simp
        from "1.IH" [OF True nx' refl refl ra cr2] show ?thesis by auto
      next
        case StopIteration
        with st True Active nx "1.prems"(1) show ?thesis
          by (auto simp: read_args.simps [of P S i acc Active h1] intro: exI [of _ "[]"])
      next
        case AssertionFailed
        with st show ?thesis by simp
      qed
    qed
  qed
qed

lemma call_reads_pulls:
  assumes "tool_call_pulls k P i g h1 = (ok, g', h')" and "call_reads P i h ys g h1"
  shows "ok \<and> (\<exists>zs. call_reads P i h (ys @ zs) g' h')"
  using assms
proof (induction k arbitrary: g h1 ys)
  case 0
  then show ?case by (auto intro: exI [of _ "[]"])
next
  case (Suc k)
  show ?case
  proof (cases g)
    case Done
    with Suc.prems show ?thesis by (auto intro: exI [of _ "[]"])
  next
    case Active
    obtain r g2 h2 where nx: "tool_call_next P i Active h1 = (r, g2, h2)"
      by (cases "tool_call_next P i Active h1")
    from Suc.prems(2) Active have cr: "call_reads P i h ys Active h1" by simp
    note st = call_reads_next [OF cr nx]
    show ?thesis
    proof (cases r)
      case (Yielded a)
      with st have cr2: "call_reads P i h (ys @ [a]) g2 h2" by simp
      from Active nx Yielded Suc.prems(1) have "tool_call_pulls k P i g2 h2 = (ok, g', h')"
        by simp
      from Suc.IH [OF this cr2] show ?thesis by auto
    next
      case StopIteration
      with st Active nx Suc.prems(1) show ?thesis by (auto intro: exI [of _ "[]"])
    next
      case AssertionFailed
      with st show ?thesis by simp
    qed
  qed
qed

lemma call_reads_consume:
  assumes "tool_call_consume P i g h1 = (ok, g', h')" and "call_reads P i h ys g h1"
  shows "ok \<and> g' = Done \<and> (\<exists>zs. call_reads P i h (ys @ zs) Done h')"
  using assms
proof (induction P i g h1 arbitrary: ys rule: tool_call_consume.induct)
  case (1 P i g h1)
  show ?case
  proof (cases g)
    case Done
    with "1.prems" show ?thesis
      by (auto simp: tool_call_consume.simps [of P i Done h1] intro: exI [of _ "[]"])
  next
    case Active
    obtain r g2 h2 where nx: "tool_call_next P i Active h1 = (r, g2, h2)"
      by (cases "tool_call_next P i Active h1")
    from "1.prems"(2) Active have cr: "call_reads P i h ys Active h1" by simp
    note st = call_reads_next [OF cr nx]
    show ?thesis
    proof (cases r)
      case (Yielded a)
      with st have cr2: "call_reads P i h (ys @ [a]) g2 h2" by simp
      from Active nx Yielded "1.prems"(1) have tc: "tool_call_consume P i g2 h2 = (ok, g', h')"
        by (simp add: tool_call_consume.simps [of P i Active h1])
      from nx Yielded Active have nx': "(Yielded a, g2, h2) = tool_call_next P i g h1" by simp
      from "1.IH" [OF nx' refl refl tc cr2] show ?thesis by auto
    next
      case StopIteration
      with st Active nx "1.prems"(1) show ?thesis
        by (auto simp: tool_call_consume.simps [of P i Active h1] intro: exI [of _ "[]"])
    next
      case AssertionFailed
      with st show ?thesis by simp
    qed
  qed
qed

text \<open>Reading and then consuming is consuming.\<close>

lemma read_args_then_consume:
  "read_args P S i acc g h = (acc', True, g', h') \<Longrightarrow>
     tool_call_consume P i g h = tool_call_consume P i g' h'"
proof (induction P S i acc g h rule: read_args.induct)
  case (1 P S i acc g h)
  show ?case
  proof (cases "wants_more S acc")
    case False
    with "1.prems" show ?thesis by (simp add: read_args.simps [of P S i acc g h])
  next
    case True
    obtain r g2 h2 where nx: "tool_call_next P i g h = (r, g2, h2)"
      by (cases "tool_call_next P i g h")
    show ?thesis
    proof (cases r)
      case (Yielded a)
      from True nx Yielded "1.prems"
      have ra: "read_args P S i (acc @ [a]) g2 h2 = (acc', True, g', h')"
        by (simp add: read_args.simps [of P S i acc g h])
      from nx Yielded have nx': "(Yielded a, g2, h2) = tool_call_next P i g h" by simp
      from "1.IH" [OF True nx' refl refl ra]
      have "tool_call_consume P i g2 h2 = tool_call_consume P i g' h'" .
      with nx Yielded show ?thesis by (simp add: tool_call_consume.simps [of P i g h])
    next
      case StopIteration
      with True nx "1.prems" have e: "g' = g2" "h' = h2"
        by (simp_all add: read_args.simps [of P S i acc g h])
      have "g2 = Done" using nx StopIteration by (auto dest: tool_call_next_Stop)
      with nx StopIteration e show ?thesis
        by (simp add: tool_call_consume.simps [of P i g h] tool_call_consume.simps [of P i Done h2])
    next
      case AssertionFailed
      with True nx "1.prems" show ?thesis by (simp add: read_args.simps [of P S i acc g h])
    qed
  qed
qed

lemma pulls_then_consume:
  "tool_call_pulls k P i g h = (True, g', h') \<Longrightarrow>
     tool_call_consume P i g h = tool_call_consume P i g' h'"
proof (induction k arbitrary: g h)
  case 0
  then show ?case by simp
next
  case (Suc k)
  obtain r g2 h2 where nx: "tool_call_next P i g h = (r, g2, h2)"
    by (cases "tool_call_next P i g h")
  show ?case
  proof (cases r)
    case (Yielded a)
    with nx Suc.prems have "tool_call_pulls k P i g2 h2 = (True, g', h')" by simp
    from Suc.IH [OF this] nx Yielded show ?thesis
      by (simp add: tool_call_consume.simps [of P i g h])
  next
    case StopIteration
    with nx Suc.prems have e: "g' = g2" "h' = h2" by simp_all
    have "g2 = Done" using nx StopIteration by (auto dest: tool_call_next_Stop)
    with nx StopIteration e show ?thesis
      by (simp add: tool_call_consume.simps [of P i g h] tool_call_consume.simps [of P i Done h2])
  next
    case AssertionFailed
    with nx Suc.prems show ?thesis by simp
  qed
qed

text \<open>
  The heap on which the generator of a call starts: the chunk popped from
  \<^verbatim>\<open>tool_call_ref\<close> is chained back in front of the chunk stream (lines 145 and 160).
  One pass of the inner loop that raises nothing leaves the heap that consuming the
  call's generator from its start leaves, whatever the schema and the consumer read.
\<close>

definition call_start :: "FunctionCallChunk \<Rightarrow> 'item heap \<Rightarrow> 'item heap" where
  "call_start chunk h = h\<lparr>tool_call_ref := [], tool_calls_stream := chunk # tool_calls_stream h\<rparr>"

lemma tool_group_result:
  assumes tg: "tool_group E k h = (out, err, h')"
    and ref: "tool_call_ref h = [chunk]"
    and nex: "\<not> exhausted h"
  shows "updated h' @ fresh (stream h') = updated h @ fresh (stream h) \<and>
         current_item_ref h' = current_item_ref h \<and>
         list_all (\<lambda>s. \<not> is_text s) out \<and>
         (err = None \<longrightarrow>
            (\<exists>i ys. chunk_id chunk = Some i \<and>
               call_reads (parser E) i (call_start chunk h) ys Done h' \<and>
               tool_call_consume (parser E) i Active (call_start chunk h) = (True, Done, h')))"
proof (cases "chunk_id chunk")
  case None
  with tg ref show ?thesis by (auto simp: tool_group_def)
next
  case (Some i)
  note cid = Some
  show ?thesis
  proof (cases "chunk_name chunk")
    case None
    with tg ref cid show ?thesis by (auto simp: tool_group_def)
  next
    case (Some nm)
    note cnm = Some
    show ?thesis
    proof (cases "select_function_schema (function_schemas E) nm")
      case None
      with tg ref cid cnm show ?thesis by (auto simp: tool_group_def)
    next
      case (Some S)
      let ?P = "parser E"
      let ?hs = "call_start chunk h"
      have hs: "?hs = h\<lparr>tool_call_ref := [], tool_calls_stream := chunk # tool_calls_stream h\<rparr>"
        by (simp add: call_start_def)
      have cr0: "call_reads ?P i ?hs [] Active ?hs"
        by (rule call_reads_start) (simp add: call_start_def)
      have base: "updated ?hs @ fresh (stream ?hs) = updated h @ fresh (stream h)"
        "current_item_ref ?hs = current_item_ref h" "exhausted ?hs = exhausted h"
        by (simp_all add: call_start_def)
      obtain acc ok g h2 where ra: "read_args ?P S i [] Active ?hs = (acc, ok, g, h2)"
        by (cases "read_args ?P S i [] Active ?hs")
      from call_reads_read_args [OF ra cr0]
      have ok: ok and cr2: "call_reads ?P i ?hs acc g h2" by auto
      from ra ok read_args_then_consume [of ?P S i "[]" Active ?hs acc g h2]
      have c2: "tool_call_consume ?P i Active ?hs = tool_call_consume ?P i g h2" by simp
      from tg ref cid cnm Some ra ok hs
      have tg2: "(case validate S acc of
           Inl e \<Rightarrow> ([], Some (ToolSchemaParseError (updated h2) i e), h2)
         | Inr output \<Rightarrow>
       (case tool_call_pulls (if output_iterable E output then k else 0) ?P i g h2 of
           (ok', g', h3) \<Rightarrow>
             if \<not> ok' then ([Structured output], Some AssertionError, h3)
             else if tool_call_ref h3 = [] \<and> \<not> exhausted h3 then
               (if \<not> output_iterable E output then ([Structured output], Some AssertionError, h3)
                else
                  (case tool_call_consume ?P i g' h3 of
                     (ok'', g'', h4) \<Rightarrow>
                       ([Structured output], if ok'' then None else Some AssertionError, h4)))
             else ([Structured output], None, h3))) = (out, err, h')"
        by (simp add: tool_group_def)
      show ?thesis
      proof (cases "validate S acc")
        case (Inl e)
        with tg2 cr2 base show ?thesis by (auto simp: call_reads_def)
      next
        case (Inr outp)
        let ?k = "if output_iterable E outp then k else 0"
        obtain ok' g3 h3 where pl: "tool_call_pulls ?k ?P i g h2 = (ok', g3, h3)"
          by (cases "tool_call_pulls ?k ?P i g h2")
        from call_reads_pulls [OF pl cr2] obtain zs where
          ok': ok' and cr3: "call_reads ?P i ?hs (acc @ zs) g3 h3" by auto
        from pl ok' pulls_then_consume [of ?k ?P i g h2 g3 h3]
        have c3: "tool_call_consume ?P i g h2 = tool_call_consume ?P i g3 h3" by simp
        show ?thesis
        proof (cases "tool_call_ref h3 = [] \<and> \<not> exhausted h3")
          case False
          have g3: "g3 = Done"
          proof (cases g3)
            case Active
            with cr3 False nex base show ?thesis by (auto simp: call_reads_def)
          qed simp
          from g3 have "tool_call_consume ?P i g3 h3 = (True, Done, h3)"
            by (simp add: tool_call_consume.simps [of ?P i Done h3])
          with c2 c3 have "tool_call_consume ?P i Active ?hs = (True, Done, h3)" by simp
          moreover from tg2 Inr pl ok' False have "out = [Structured outp]" "err = None" "h' = h3"
            by auto
          ultimately show ?thesis using cr3 g3 base cid
            by (auto simp: call_reads_def)
        next
          case True
          show ?thesis
          proof (cases "output_iterable E outp")
            case False
            with tg2 Inr pl ok' True cr3 base show ?thesis by (auto simp: call_reads_def)
          next
            case it: True
            obtain ok'' g4 h4 where cs: "tool_call_consume ?P i g3 h3 = (ok'', g4, h4)"
              by (cases "tool_call_consume ?P i g3 h3")
            from call_reads_consume [OF cs cr3] obtain zs' where
              ok'': ok'' and g4: "g4 = Done" and cr4: "call_reads ?P i ?hs ((acc @ zs) @ zs') Done h4"
              by auto
            from tg2 Inr pl ok' True it cs ok''
            have "out = [Structured outp]" "err = None" "h' = h4" by auto
            moreover from c2 c3 cs ok'' g4
            have "tool_call_consume ?P i Active ?hs = (True, Done, h4)" by simp
            ultimately show ?thesis using cr4 base cid by (auto simp: call_reads_def)
          qed
        qed
      qed
    qed
  qed
qed

lemma tool_call_pulls_Done: "tool_call_pulls k P i Done h = (True, Done, h)"
  by (cases k) simp_all

text \<open>A schema that always wants more reads the generator to its end.\<close>

lemma read_args_greedy:
  "read_args P S i acc g h = (acc', True, g', h') \<Longrightarrow> \<forall>xs. wants_more S xs \<Longrightarrow> g' = Done"
proof (induction P S i acc g h rule: read_args.induct)
  case (1 P S i acc g h)
  from "1.prems"(2) have wm: "wants_more S acc" by simp
  obtain r g2 h2 where nx: "tool_call_next P i g h = (r, g2, h2)"
    by (cases "tool_call_next P i g h")
  show ?case
  proof (cases r)
    case (Yielded a)
    from wm nx Yielded "1.prems"(1)
    have ra: "read_args P S i (acc @ [a]) g2 h2 = (acc', True, g', h')"
      by (simp add: read_args.simps [of P S i acc g h])
    from nx Yielded have nx': "(Yielded a, g2, h2) = tool_call_next P i g h" by simp
    from "1.IH" [OF wm nx' refl refl ra "1.prems"(2)] show ?thesis .
  next
    case StopIteration
    with wm nx "1.prems"(1) have "g' = g2"
      by (simp add: read_args.simps [of P S i acc g h])
    with nx StopIteration show ?thesis by (auto dest: tool_call_next_Stop)
  next
    case AssertionFailed
    with wm nx "1.prems"(1) show ?thesis by (simp add: read_args.simps [of P S i acc g h])
  qed
qed

text \<open>
  The fragments of a Text Segment that starts on a sequence of events: the non-empty
  contents of the events in order, up to and including the first event classified as a
  tool call. \<open>text_reads\<close> tells where the generator \<^verbatim>\<open>_streamed_str\<close> stands after it
  has delivered the fragments \<open>ys\<close>, having started at the head of its loop on the heap
  \<open>h\<close>; when finished it has left the first tool-call event in \<^verbatim>\<open>current_item_ref\<close>, or
  has exhausted the stream.
\<close>

fun text_frags :: "'item StreamParser \<Rightarrow> 'item list \<Rightarrow> string list" where
  "text_frags P [] = []"
| "text_frags P (x # xs) =
     (if truthy (get_content P x) then [the (get_content P x)] else []) @
     (if is_tool_call P x then [] else text_frags P xs)"

definition text_reads ::
  "'item StreamParser \<Rightarrow> 'item heap \<Rightarrow> string list \<Rightarrow> 'item str_gen \<Rightarrow> 'item heap \<Rightarrow> bool"
where
  "text_reads P h ys g h' =
     (updated h' @ fresh (stream h') = updated h @ fresh (stream h) \<and>
      tool_call_ref h' = tool_call_ref h \<and>
      tool_calls_stream h' = tool_calls_stream h \<and>
      list_all (\<lambda>a. a \<noteq> []) ys \<and>
      (case g of
         Running None \<Rightarrow> current_item_ref h' = [] \<and> exhausted h' = exhausted h \<and>
           text_frags P (map item_of (stream h)) = ys @ text_frags P (map item_of (stream h')) \<and>
           dropWhile (\<lambda>c. \<not> is_tool_call P (item_of c)) (stream h) =
             dropWhile (\<lambda>c. \<not> is_tool_call P (item_of c)) (stream h')
       | Running (Some x) \<Rightarrow> current_item_ref h' = [] \<and> exhausted h' = exhausted h \<and>
           (if is_tool_call P x then
              text_frags P (map item_of (stream h)) = ys \<and>
              (\<exists>c. item_of c = x \<and>
                 dropWhile (\<lambda>c. \<not> is_tool_call P (item_of c)) (stream h) = c # stream h')
            else
              text_frags P (map item_of (stream h)) = ys @ text_frags P (map item_of (stream h')) \<and>
              dropWhile (\<lambda>c. \<not> is_tool_call P (item_of c)) (stream h) =
                dropWhile (\<lambda>c. \<not> is_tool_call P (item_of c)) (stream h'))
       | Finished \<Rightarrow> text_frags P (map item_of (stream h)) = ys \<and>
           (case dropWhile (\<lambda>c. \<not> is_tool_call P (item_of c)) (stream h) of
              [] \<Rightarrow> current_item_ref h' = [] \<and> exhausted h' \<and> stream h' = []
            | b # rest \<Rightarrow> current_item_ref h' = [item_of b] \<and> exhausted h' = exhausted h \<and>
                stream h' = rest)))"

lemma text_reads_start: "current_item_ref h = [] \<Longrightarrow> text_reads P h [] (Running None) h"
  by (simp add: text_reads_def)

lemma text_reads_next:
  assumes "streamed_str_next P g h1 = (r, g', h')" and "text_reads P h ys g h1"
  shows "case r of
           Yielded s \<Rightarrow> text_reads P h (ys @ [s]) g' h'
         | StopIteration \<Rightarrow> g' = Finished \<and> text_reads P h ys Finished h'
         | AssertionFailed \<Rightarrow> False"
  using assms
proof (induction P g h1 arbitrary: r g' h' rule: streamed_str_next.induct)
  case (1 P h1)
  then show ?case by simp
next
  case (2 P item h1)
  show ?case
  proof (cases "is_tool_call P item")
    case True
    with "2.prems" obtain c where
      c: "item_of c = item"
        "dropWhile (\<lambda>c. \<not> is_tool_call P (item_of c)) (stream h) = c # stream h1"
      by (auto simp: text_reads_def)
    from True "2.prems" c show ?thesis by (auto simp: text_reads_def)
  next
    case False
    with "2.prems" have st: "streamed_str_next P (Running None) h1 = (r, g', h')"
      and tr: "text_reads P h ys (Running None) h1"
      by (auto simp: text_reads_def)
    from "2.IH" [OF False st tr] show ?thesis .
  qed
next
  case (3 P h1)
  note tr = "3.prems"(2)
  show ?case
  proof (cases "next_item h1")
    case None
    then have s1: "stream h1 = []" by (simp add: next_item_None)
    with tr have d: "dropWhile (\<lambda>c. \<not> is_tool_call P (item_of c)) (stream h) = []"
      by (simp add: text_reads_def del: dropWhile_eq_Nil_conv)
    from None "3.prems"(1) s1 tr show ?thesis
      by (auto simp: text_reads_def d simp del: dropWhile_eq_Nil_conv)
  next
    case (Some p)
    obtain item h2 where p: "p = (item, h2)" by (cases p)
    note ni = next_item_Some [OF Some [unfolded p]]
    from ni(1) obtain c where c: "stream h1 = c # stream h2" "item_of c = item" by blast
    show ?thesis
    proof (cases "truthy (get_content P item)")
      case True
      with Some p "3.prems"(1)
      have r: "r = Yielded (the (get_content P item))" "g' = Running (Some item)" "h' = h2"
        by auto
      from True have ne: "the (get_content P item) \<noteq> []"
        by (auto simp: truthy_def split: option.splits)
      from tr ni c True ne show ?thesis unfolding r
        by (auto simp: text_reads_def)
    next
      case False
      with Some p "3.prems"(1)
      have st: "streamed_str_next P (Running (Some item)) h2 = (r, g', h')" by simp
      from tr ni c False have tr2: "text_reads P h ys (Running (Some item)) h2"
        by (auto simp: text_reads_def)
      from "3.IH" [OF Some [unfolded p] refl False st tr2] show ?thesis .
    qed
  qed
qed

lemma text_reads_pulls:
  assumes "streamed_str_pulls k P g h1 = (taken, ok, g', h')" and "text_reads P h ys g h1"
  shows "ok \<and> text_reads P h (ys @ taken) g' h'"
  using assms
proof (induction k arbitrary: g h1 ys taken)
  case 0
  then show ?case by simp
next
  case (Suc k)
  obtain r g2 h2 where nx: "streamed_str_next P g h1 = (r, g2, h2)"
    by (cases "streamed_str_next P g h1")
  note st = text_reads_next [OF nx Suc.prems(2)]
  show ?case
  proof (cases r)
    case (Yielded s)
    with st have tr2: "text_reads P h (ys @ [s]) g2 h2" by simp
    from nx Yielded Suc.prems(1) obtain ss where
      pl: "streamed_str_pulls k P g2 h2 = (ss, ok, g', h')" and tk: "taken = s # ss"
      by (auto split: prod.splits)
    from Suc.IH [OF pl tr2] tk show ?thesis by simp
  next
    case StopIteration
    with st nx Suc.prems(1) show ?thesis by auto
  next
    case AssertionFailed
    with st show ?thesis by simp
  qed
qed

lemma text_reads_consume:
  assumes "streamed_str_consume P g h1 = (drained, ok, g', h')" and "text_reads P h ys g h1"
  shows "ok \<and> g' = Finished \<and> text_reads P h (ys @ drained) Finished h'"
  using assms
proof (induction P g h1 arbitrary: ys drained rule: streamed_str_consume.induct)
  case (1 P g h1)
  obtain r g2 h2 where nx: "streamed_str_next P g h1 = (r, g2, h2)"
    by (cases "streamed_str_next P g h1")
  note st = text_reads_next [OF nx "1.prems"(2)]
  show ?case
  proof (cases r)
    case (Yielded s)
    with st have tr2: "text_reads P h (ys @ [s]) g2 h2" by simp
    from nx Yielded "1.prems"(1) obtain ss where
      cs: "streamed_str_consume P g2 h2 = (ss, ok, g', h')" and dr: "drained = s # ss"
      by (auto simp: streamed_str_consume.simps [of P g h1] split: prod.splits)
    from nx Yielded have nx': "(Yielded s, g2, h2) = streamed_str_next P g h1" by simp
    from "1.IH" [OF nx' refl refl cs tr2] dr show ?thesis by simp
  next
    case StopIteration
    with st nx "1.prems"(1) show ?thesis
      by (auto simp: streamed_str_consume.simps [of P g h1])
  next
    case AssertionFailed
    with st show ?thesis by simp
  qed
qed

lemma streamed_str_next_Stop:
  "streamed_str_next P g h = (StopIteration, g', h') \<Longrightarrow> g' = Finished"
proof (induction P g h rule: streamed_str_next.induct)
  case (1 P h)
  then show ?case by simp
next
  case (2 P item h)
  then show ?case by (auto split: if_splits)
next
  case (3 P h)
  show ?case
  proof (cases "next_item h")
    case None
    with "3.prems" show ?thesis by simp
  next
    case (Some p)
    obtain item h1 where p: "p = (item, h1)" by (cases p)
    show ?thesis
    proof (cases "truthy (get_content P item)")
      case True
      with Some p "3.prems" show ?thesis by simp
    next
      case False
      with Some p "3.prems"
      have "streamed_str_next P (Running (Some item)) h1 = (StopIteration, g', h')" by simp
      with "3.IH" [OF Some [unfolded p] refl False] show ?thesis by simp
    qed
  qed
qed

lemma text_pulls_then_consume:
  "streamed_str_pulls k P g h = (taken, True, g1, h1) \<Longrightarrow>
   streamed_str_consume P g1 h1 = (drained, ok, g2, h2) \<Longrightarrow>
     streamed_str_consume P g h = (taken @ drained, ok, g2, h2)"
proof (induction k arbitrary: g h taken)
  case 0
  then show ?case by simp
next
  case (Suc k)
  obtain r g3 h3 where nx: "streamed_str_next P g h = (r, g3, h3)"
    by (cases "streamed_str_next P g h")
  show ?case
  proof (cases r)
    case (Yielded s)
    from nx Yielded Suc.prems(1) obtain ss where
      pl: "streamed_str_pulls k P g3 h3 = (ss, True, g1, h1)" and tk: "taken = s # ss"
      by (auto split: prod.splits)
    from Suc.IH [OF pl Suc.prems(2)] nx Yielded tk show ?thesis
      by (simp add: streamed_str_consume.simps [of P g h])
  next
    case StopIteration
    with nx Suc.prems(1) have e: "taken = []" "g1 = g3" "h1 = h3" by simp_all
    have g3: "g3 = Finished" using nx StopIteration by (auto dest: streamed_str_next_Stop)
    with Suc.prems(2) e have "drained = []" "ok" "g2 = Finished" "h2 = h3"
      by (simp_all add: streamed_str_consume.simps [of P Finished h3])
    with nx StopIteration e g3 show ?thesis
      by (simp add: streamed_str_consume.simps [of P g h])
  next
    case AssertionFailed
    with nx Suc.prems(1) show ?thesis by simp
  qed
qed

text \<open>
  Lines 130 to 136 on a heap whose lookahead slot has just been popped: whatever the
  consumer pulled, the pass raises nothing and leaves the heap that consuming the
  generator from its start leaves.
\<close>

lemma text_group_result:
  assumes tg: "text_group P k x h = (out, err, h')"
    and ref: "current_item_ref h = []"
    and nex: "\<not> exhausted h"
  shows "err = None \<and>
         (\<exists>taken drained. out = [Text taken drained] \<and>
            streamed_str_consume P (Running None) (h\<lparr>stream := Chained x # stream h\<rparr>) =
              (taken @ drained, True, Finished, h') \<and>
            text_reads P (h\<lparr>stream := Chained x # stream h\<rparr>) (taken @ drained) Finished h')"
proof -
  let ?hs = "h\<lparr>stream := Chained x # stream h\<rparr>"
  have tr0: "text_reads P ?hs [] (Running None) ?hs"
    by (rule text_reads_start) (simp add: ref)
  obtain taken ok g1 h1 where pl: "streamed_str_pulls k P (Running None) ?hs = (taken, ok, g1, h1)"
    by (cases "streamed_str_pulls k P (Running None) ?hs")
  from text_reads_pulls [OF pl tr0] have ok: ok and tr1: "text_reads P ?hs taken g1 h1"
    by simp_all
  obtain drained ok2 g2 h2 where cs: "streamed_str_consume P g1 h1 = (drained, ok2, g2, h2)"
    by (cases "streamed_str_consume P g1 h1")
  from text_reads_consume [OF cs tr1]
  have ok2: ok2 and g2: "g2 = Finished" and tr2: "text_reads P ?hs (taken @ drained) Finished h2"
    by simp_all
  from text_pulls_then_consume [OF pl [unfolded ok [THEN eqTrueI]] cs] ok2 g2
  have full: "streamed_str_consume P (Running None) ?hs = (taken @ drained, True, Finished, h2)"
    by simp
  show ?thesis
  proof (cases "current_item_ref h1 = [] \<and> \<not> exhausted h1")
    case True
    with tg pl ok cs ok2 have "out = [Text taken drained]" "err = None" "h' = h2"
      by (auto simp: text_group_def)
    with full tr2 show ?thesis by simp
  next
    case False
    have g1: "g1 = Finished"
    proof (cases g1)
      case (Running q)
      with tr1 False nex show ?thesis
        by (cases q) (auto simp: text_reads_def)
    qed simp
    with cs have "drained = []" "h2 = h1"
      by (simp_all add: streamed_str_consume.simps [of P Finished h1])
    moreover from tg pl ok False have "out = [Text taken []]" "err = None" "h' = h1"
      by (auto simp: text_group_def)
    ultimately show ?thesis using full tr2 by simp
  qed
qed

lemma text_group_post:
  assumes "text_group P k x h = (out, err, h')"
    and "current_item_ref h = []"
    and "\<not> exhausted h"
  shows "err = None \<and>
         (\<exists>taken drained. out = [Text taken drained] \<and>
            taken @ drained = text_frags P (x # map item_of (stream h)) \<and>
            streamed_str_consume P (Running None) (h\<lparr>stream := Chained x # stream h\<rparr>) =
              (taken @ drained, True, Finished, h')) \<and>
         updated h' @ fresh (stream h') = updated h @ fresh (stream h) \<and>
         (case dropWhile (\<lambda>c. \<not> is_tool_call P (item_of c)) (Chained x # stream h) of
            [] \<Rightarrow> current_item_ref h' = [] \<and> exhausted h' \<and> stream h' = []
          | b # rest \<Rightarrow> current_item_ref h' = [item_of b] \<and> \<not> exhausted h' \<and> stream h' = rest)"
proof -
  let ?hs = "h\<lparr>stream := Chained x # stream h\<rparr>"
  from text_group_result [OF assms] obtain taken drained where
    err: "err = None" and out: "out = [Text taken drained]"
    and cs: "streamed_str_consume P (Running None) ?hs = (taken @ drained, True, Finished, h')"
    and tr: "text_reads P ?hs (taken @ drained) Finished h'"
    by blast
  show ?thesis
  proof (cases "dropWhile (\<lambda>c. \<not> is_tool_call P (item_of c)) (Chained x # stream h)")
    case Nil
    with tr assms(3) have "taken @ drained = text_frags P (x # map item_of (stream h))"
      and "updated h' @ fresh (stream h') = updated h @ fresh (stream h)"
      and "current_item_ref h' = [] \<and> exhausted h' \<and> stream h' = []"
      by (auto simp: text_reads_def simp del: dropWhile_eq_Nil_conv dropWhile.simps text_frags.simps)
    with err out cs Nil show ?thesis by (simp del: dropWhile_eq_Nil_conv dropWhile.simps)
  next
    case (Cons b rest)
    with tr assms(3) have "taken @ drained = text_frags P (x # map item_of (stream h))"
      and "updated h' @ fresh (stream h') = updated h @ fresh (stream h)"
      and "current_item_ref h' = [item_of b] \<and> \<not> exhausted h' \<and> stream h' = rest"
      by (auto simp: text_reads_def simp del: dropWhile.simps text_frags.simps)
    with err out cs Cons show ?thesis by (simp del: dropWhile.simps)
  qed
qed

section \<open>Invariants of the two loops\<close>

text \<open>
  At the head of the outer loop every event of the source is either in the log of
  updated events or still in the stream, in order; nothing is chained in front of the
  stream; a full lookahead slot holds the event updated last, with the engine not
  exhausted. At the head of the inner loop an empty \<^verbatim>\<open>tool_call_ref\<close> means an empty
  stream, a full one an engine not exhausted, and \<^verbatim>\<open>current_item_ref\<close> is empty.
\<close>

fun is_fresh :: "'item cell \<Rightarrow> bool" where
  "is_fresh (Fresh x) = True"
| "is_fresh (Chained x) = False"

definition loop_inv :: "'item list \<Rightarrow> 'item heap \<Rightarrow> bool" where
  "loop_inv src h =
     (updated h @ fresh (stream h) = src \<and> list_all is_fresh (stream h) \<and>
      (case current_item_ref h of
         [] \<Rightarrow> True
       | x # xs \<Rightarrow> xs = [] \<and> \<not> exhausted h \<and> updated h \<noteq> [] \<and> last (updated h) = x))"

definition tool_inv :: "'item list \<Rightarrow> 'item heap \<Rightarrow> bool" where
  "tool_inv src h =
     (updated h @ fresh (stream h) = src \<and> current_item_ref h = [] \<and>
      (case tool_call_ref h of [] \<Rightarrow> stream h = [] | c # cs \<Rightarrow> cs = [] \<and> \<not> exhausted h))"

lemma fresh_items: "list_all is_fresh cs \<Longrightarrow> map item_of cs = fresh cs"
  by (induction cs rule: fresh.induct) auto

lemma tool_group_inv:
  assumes inv: "tool_inv src h" and ne: "tool_call_ref h \<noteq> []"
    and tg: "tool_group E k h = (out, err, h')"
  shows "updated h' @ fresh (stream h') = src \<and> current_item_ref h' = [] \<and>
         list_all (\<lambda>s. \<not> is_text s) out \<and> (err = None \<longrightarrow> tool_inv src h')"
proof -
  from inv ne obtain chunk where ref: "tool_call_ref h = [chunk]" and nex: "\<not> exhausted h"
    by (cases "tool_call_ref h") (auto simp: tool_inv_def)
  note res = tool_group_result [OF tg ref nex]
  from res inv have base: "updated h' @ fresh (stream h') = src" "current_item_ref h' = []"
    "list_all (\<lambda>s. \<not> is_text s) out"
    by (auto simp: tool_inv_def)
  have "tool_inv src h'" if "err = None"
  proof -
    from res that obtain i ys where
      cr: "call_reads (parser E) i (call_start chunk h) ys Done h'" by auto
    show ?thesis
    proof (cases "dropWhile (\<lambda>c. \<not> new_call i c) (chunks_ahead (parser E) (call_start chunk h))")
      case Nil
      with cr base show ?thesis
        by (simp add: call_reads_def tool_inv_def del: dropWhile_eq_Nil_conv)
    next
      case (Cons b rest)
      with cr base nex show ?thesis
        by (simp add: call_reads_def tool_inv_def call_start_def)
    qed
  qed
  with base show ?thesis by simp
qed

lemma tool_loop_inv:
  assumes "tool_inv src h" and "tool_loop n E c segs h = (segs', h', out)"
  shows "updated h' @ fresh (stream h') = src \<and> current_item_ref h' = [] \<and>
         (\<exists>new. segs' = segs @ new \<and> list_all (\<lambda>s. \<not> is_text s) new) \<and>
         (out = Completed \<longrightarrow> stream h' = [])"
  using assms
proof (induction n arbitrary: segs h)
  case 0
  then show ?case by (auto simp: tool_inv_def split: if_splits)
next
  case (Suc n)
  show ?case
  proof (cases "tool_call_ref h = []")
    case True
    with Suc.prems show ?thesis by (auto simp: tool_inv_def)
  next
    case False
    obtain new err h1 where tg: "tool_group E (c (length segs)) h = (new, err, h1)"
      by (cases "tool_group E (c (length segs)) h")
    note gi = tool_group_inv [OF Suc.prems(1) False tg]
    show ?thesis
    proof (cases err)
      case (Some e)
      with False tg Suc.prems(2) gi show ?thesis by auto
    next
      case None
      with False tg Suc.prems(2) have tl: "tool_loop n E c (segs @ new) h1 = (segs', h', out)"
        by simp
      from gi None have "tool_inv src h1" by simp
      from Suc.IH [OF this tl] gi show ?thesis by auto
    qed
  qed
qed

lemma fresh_append: "fresh (xs @ ys) = fresh xs @ fresh ys"
  by (induction xs rule: fresh.induct) auto

lemma text_group_inv:
  assumes inv: "loop_inv src h" and ref: "current_item_ref h = [x]"
    and tg: "text_group P k x (h\<lparr>current_item_ref := []\<rparr>) = (out, err, h')"
  shows "err = None \<and> loop_inv src h' \<and>
         (\<exists>taken drained. out = [Text taken drained] \<and>
            taken @ drained = text_frags P (x # fresh (stream h))) \<and>
         current_item_ref h' @ fresh (stream h') =
           dropWhile (\<lambda>z. \<not> is_tool_call P z) (x # fresh (stream h)) \<and>
         (current_item_ref h' = [] \<longrightarrow> stream h' = []) \<and>
         (\<forall>y. current_item_ref h' = [y] \<longrightarrow> is_tool_call P y)"
proof -
  let ?h1 = "h\<lparr>current_item_ref := []\<rparr>"
  let ?p = "\<lambda>c. \<not> is_tool_call P (item_of c)"
  let ?q = "\<lambda>z. \<not> is_tool_call P z"
  from inv ref have src: "updated h @ fresh (stream h) = src" and af: "list_all is_fresh (stream h)"
    and nex: "\<not> exhausted h" and une: "updated h \<noteq> []" and lst: "last (updated h) = x"
    by (simp_all add: loop_inv_def)
  have r1: "current_item_ref ?h1 = []" and n1: "\<not> exhausted ?h1" using nex by simp_all
  note post = text_group_post [OF tg r1 n1]
  from post af obtain taken drained where err: "err = None" and out: "out = [Text taken drained]"
    and fr: "taken @ drained = text_frags P (x # fresh (stream h))"
    by (auto simp: fresh_items)
  from post have cons: "updated h' @ fresh (stream h') = updated h @ fresh (stream h)" by simp
  have "map item_of (dropWhile ?p (Chained x # stream h)) =
      dropWhile ?q (map item_of (Chained x # stream h))"
    by (simp only: dropWhile_map comp_def)
  with af have dm: "dropWhile ?q (x # fresh (stream h)) =
      map item_of (dropWhile ?p (Chained x # stream h))"
    by (simp add: fresh_items del: dropWhile.simps)
  have "loop_inv src h' \<and>
      current_item_ref h' @ fresh (stream h') = dropWhile ?q (x # fresh (stream h)) \<and>
      (current_item_ref h' = [] \<longrightarrow> stream h' = []) \<and>
      (\<forall>y. current_item_ref h' = [y] \<longrightarrow> is_tool_call P y)"
  proof (cases "dropWhile ?p (Chained x # stream h)")
    case Nil
    with post have "current_item_ref h' = []" "stream h' = []"
      by (simp_all del: dropWhile_eq_Nil_conv dropWhile.simps)
    moreover from dm Nil have "dropWhile ?q (x # fresh (stream h)) = []"
      by (simp only: list.map)
    ultimately show ?thesis using cons src by (simp add: loop_inv_def del: dropWhile.simps dropWhile_eq_Nil_conv)
  next
    case (Cons b rest)
    with post have h': "current_item_ref h' = [item_of b]" "\<not> exhausted h'" "stream h' = rest"
      by (simp_all del: dropWhile.simps)
    from Cons have tcb: "is_tool_call P (item_of b)"
      by (auto simp: dropWhile_eq_Cons_conv simp del: dropWhile.simps)
    from Cons dm have dq: "dropWhile ?q (x # fresh (stream h)) = item_of b # map item_of rest"
      by (simp del: dropWhile.simps)
    show ?thesis
    proof (cases "is_tool_call P x")
      case True
      with Cons have b: "b = Chained x" "rest = stream h" by simp_all
      with h' cons have "updated h' = updated h" by simp
      with h' b src af une lst True dq show ?thesis
        by (simp add: loop_inv_def fresh_items del: dropWhile.simps)
    next
      case False
      with Cons have dw: "dropWhile ?p (stream h) = b # rest" by simp
      then have sp: "stream h = takeWhile ?p (stream h) @ b # rest"
        by (simp add: dropWhile_eq_Cons_conv)
      with af have "list_all is_fresh (takeWhile ?p (stream h) @ b # rest)" by simp
      then have fb: "is_fresh b" and fr': "list_all is_fresh rest" by simp_all
      from fb obtain y where y: "b = Fresh y" by (cases b) auto
      from sp have "fresh (stream h) = fresh (takeWhile ?p (stream h) @ b # rest)" by simp
      with y have "fresh (stream h) = fresh (takeWhile ?p (stream h)) @ y # fresh rest"
        by (simp add: fresh_append)
      with cons h' have "updated h' @ fresh rest =
          (updated h @ fresh (takeWhile ?p (stream h)) @ [y]) @ fresh rest"
        by simp
      then have up: "updated h' = updated h @ fresh (takeWhile ?p (stream h)) @ [y]" by simp
      from h' y up cons src fr' tcb dq show ?thesis
        by (simp add: loop_inv_def fresh_items del: dropWhile.simps)
    qed
  qed
  with err out fr show ?thesis by simp
qed

section \<open>The segments of a source\<close>

text \<open>
  What a run that ends yields, told from the source alone. A Text Segment is taken with
  the fragments the consumer pulled followed by those the engine drained (\<open>merge\<close>).

  The schema of a call reads the argument fragments one by one as long as it wants more
  (\<open>reads\<close>), and reads them to the end when it still wants more after the last one
  (\<open>reads_to_end\<close>). A call that starts at the chunk \<open>c\<close>, followed by the chunks \<open>cs\<close>,
  gives no value when the chunk has no id or no name, when no schema has that name, or
  when the schema rejects what it read; otherwise it gives its id, the value, and whether
  the engine goes on after it: it does when the schema read the fragments to the end or
  the value is iterable (\<open>call_step\<close>). The values of the calls of a chunk sequence
  (\<open>calls\<close>): the next call starts at the first chunk with a non-empty id other than the
  id of the current call, and the sequence stops at the first call that gives no value
  and after the first call the engine does not go on after.

  The segments of a sequence of events (\<open>segments_from\<close>). The engine passes over the
  leading events that are neither content nor a tool call, and stops with no segment
  when the event that follows one of them is false in Python. On a first classified
  event that is content it yields one Text Segment with the non-empty contents of the
  events up to and including the first tool-call event, then the Structured Segments of
  the calls in the chunks of that tool-call event and of all the events after it. On a
  first classified event that is a tool call it yields the Structured Segments of the
  calls in the chunks of that event and of all the events after it. No Text Segment
  follows a Structured Segment.
\<close>

fun merge :: "'o segment \<Rightarrow> 'o segment" where
  "merge (Text taken drained) = Text (taken @ drained) []"
| "merge (Structured v) = Structured v"

fun reads :: "('o, 'e) FunctionSchema \<Rightarrow> string list \<Rightarrow> string list \<Rightarrow> string list" where
  "reads S acc [] = acc"
| "reads S acc (a # bs) = (if wants_more S acc then reads S (acc @ [a]) bs else acc)"

fun reads_to_end :: "('o, 'e) FunctionSchema \<Rightarrow> string list \<Rightarrow> string list \<Rightarrow> bool" where
  "reads_to_end S acc [] = wants_more S acc"
| "reads_to_end S acc (a # bs) = (wants_more S acc \<and> reads_to_end S (acc @ [a]) bs)"

definition call_step ::
  "('item, 'o, 'e) OutputStream \<Rightarrow> FunctionCallChunk \<Rightarrow> FunctionCallChunk list \<Rightarrow>
     (string \<times> 'o \<times> bool) option"
where
  "call_step E c cs =
     (case chunk_id c of
        None \<Rightarrow> None
      | Some i \<Rightarrow>
     (case chunk_name c of
        None \<Rightarrow> None
      | Some nm \<Rightarrow>
     (case select_function_schema (function_schemas E) nm of
        None \<Rightarrow> None
      | Some S \<Rightarrow>
     (case validate S (reads S [] (call_args i (c # cs))) of
        Inl e \<Rightarrow> None
      | Inr v \<Rightarrow>
          Some (i, v, reads_to_end S [] (call_args i (c # cs)) \<or> output_iterable E v)))))"

function calls :: "('item, 'o, 'e) OutputStream \<Rightarrow> FunctionCallChunk list \<Rightarrow> 'o list" where
  "calls E [] = []"
| "calls E (c # cs) =
     (case call_step E c cs of
        None \<Rightarrow> []
      | Some (i, v, continues) \<Rightarrow>
          v # (if continues then calls E (dropWhile (\<lambda>d. \<not> new_call i d) cs) else []))"
  by pat_completeness auto
termination
  by (relation "measure (\<lambda>(E, cs). length cs)")
     (auto intro: le_imp_less_Suc length_dropWhile_le)

declare calls.simps(2) [simp del]

definition tool_segments :: "('item, 'o, 'e) OutputStream \<Rightarrow> 'item list \<Rightarrow> 'o segment list" where
  "tool_segments E xs =
     map Structured (calls E (concat (map (iter_tool_calls (parser E)) xs)))"

fun segments_from :: "('item, 'o, 'e) OutputStream \<Rightarrow> 'item list \<Rightarrow> 'o segment list" where
  "segments_from E [] = []"
| "segments_from E (x # xs) =
     (if is_content (parser E) x then
        Text (text_frags (parser E) (x # xs)) [] #
        tool_segments E (dropWhile (\<lambda>z. \<not> is_tool_call (parser E) z) (x # xs))
      else if is_tool_call (parser E) x then tool_segments E (x # xs)
      else
        (case xs of
           [] \<Rightarrow> []
         | y # ys \<Rightarrow> if item_truthy E y then segments_from E (y # ys) else []))"

lemma merge_Structured: "map merge (map Structured vs) = map Structured vs"
  by (induction vs) simp_all

lemma reads_stop: "\<not> wants_more S acc \<Longrightarrow> reads S acc bs = acc"
  by (cases bs) simp_all

lemma reads_to_end_stop: "\<not> wants_more S acc \<Longrightarrow> \<not> reads_to_end S acc bs"
  by (cases bs) simp_all

lemma read_args_reads:
  assumes "read_args P S i acc g h = (acc', ok, g', h')"
    and "g = Active" and "tool_call_ref h = []"
  shows "acc' = reads S acc (call_args i (chunks_ahead P h)) \<and>
         (g' = Done \<longleftrightarrow> reads_to_end S acc (call_args i (chunks_ahead P h)))"
  using assms
proof (induction P S i acc g h rule: read_args.induct)
  case (1 P S i acc g h)
  note g = "1.prems"(2) and ref = "1.prems"(3)
  show ?case
  proof (cases "wants_more S acc")
    case False
    with "1.prems"(1) g show ?thesis
      by (auto simp: read_args.simps [of P S i acc Active h] reads_stop reads_to_end_stop)
  next
    case True
    obtain r g2 h2 where nx: "tool_call_next P i Active h = (r, g2, h2)"
      by (cases "tool_call_next P i Active h")
    note st = tool_call_next_Active [OF nx ref]
    show ?thesis
    proof (cases r)
      case (Yielded a)
      with st have g2: "g2 = Active" and r2: "tool_call_ref h2 = []"
        and ca: "call_args i (chunks_ahead P h) = a # call_args i (chunks_ahead P h2)"
        by simp_all
      from True g nx Yielded "1.prems"(1)
      have ra: "read_args P S i (acc @ [a]) g2 h2 = (acc', ok, g', h')"
        by (simp add: read_args.simps [of P S i acc Active h])
      from nx Yielded g have nx': "(Yielded a, g2, h2) = tool_call_next P i g h" by simp
      from "1.IH" [OF True nx' refl refl ra g2 r2] ca True show ?thesis by simp
    next
      case StopIteration
      with st have "g2 = Done" and "call_args i (chunks_ahead P h) = []" by simp_all
      with True g nx StopIteration "1.prems"(1) show ?thesis
        by (auto simp: read_args.simps [of P S i acc Active h])
    next
      case AssertionFailed
      with st show ?thesis by simp
    qed
  qed
qed

text \<open>One pass of the inner loop, by the call that starts at the chunk it pops.\<close>

lemma tool_group_step:
  assumes tg: "tool_group E k h = (out, err, h')"
    and ref: "tool_call_ref h = [chunk]"
    and nex: "\<not> exhausted h"
  shows "case call_step E chunk (chunks_ahead (parser E) h) of
           None \<Rightarrow> out = [] \<and> err \<noteq> None
         | Some (i, v, continues) \<Rightarrow>
             out = [Structured v] \<and> (err = None \<longleftrightarrow> continues) \<and>
             (continues \<longrightarrow>
                (case dropWhile (\<lambda>d. \<not> new_call i d) (chunks_ahead (parser E) h) of
                   [] \<Rightarrow> tool_call_ref h' = []
                 | b # rest \<Rightarrow> tool_call_ref h' = [b] \<and> chunks_ahead (parser E) h' = rest))"
proof (cases "chunk_id chunk")
  case None
  with tg ref show ?thesis by (auto simp: tool_group_def call_step_def)
next
  case (Some i)
  note cid = Some
  show ?thesis
  proof (cases "chunk_name chunk")
    case None
    with tg ref cid show ?thesis by (auto simp: tool_group_def call_step_def)
  next
    case (Some nm)
    note cnm = Some
    show ?thesis
    proof (cases "select_function_schema (function_schemas E) nm")
      case None
      with tg ref cid cnm show ?thesis by (auto simp: tool_group_def call_step_def)
    next
      case (Some S)
      let ?P = "parser E"
      let ?hs = "call_start chunk h"
      let ?args = "call_args i (chunk # chunks_ahead ?P h)"
      have hs: "?hs = h\<lparr>tool_call_ref := [], tool_calls_stream := chunk # tool_calls_stream h\<rparr>"
        by (simp add: call_start_def)
      have r0: "tool_call_ref ?hs = []" by (simp add: call_start_def)
      have ca: "chunks_ahead ?P ?hs = chunk # chunks_ahead ?P h"
        by (simp add: chunks_ahead_def call_start_def)
      from cid have nn: "\<not> new_call i chunk" by (simp add: new_call_def)
      from ca nn have dw: "dropWhile (\<lambda>d. \<not> new_call i d) (chunks_ahead ?P ?hs) =
          dropWhile (\<lambda>d. \<not> new_call i d) (chunks_ahead ?P h)"
        by simp
      have cr0: "call_reads ?P i ?hs [] Active ?hs" by (rule call_reads_start) (rule r0)
      have ex0: "\<not> exhausted ?hs" using nex by (simp add: call_start_def)
      obtain acc ok g h2 where ra: "read_args ?P S i [] Active ?hs = (acc, ok, g, h2)"
        by (cases "read_args ?P S i [] Active ?hs")
      from call_reads_read_args [OF ra cr0]
      have ok: ok and cr2: "call_reads ?P i ?hs acc g h2" by auto
      from read_args_reads [OF ra refl r0] ca
      have acc: "acc = reads S [] ?args" and gd: "g = Done \<longleftrightarrow> reads_to_end S [] ?args"
        by simp_all
      from tg ref cid cnm Some ra ok hs
      have tg2: "(case validate S acc of
           Inl e \<Rightarrow> ([], Some (ToolSchemaParseError (updated h2) i e), h2)
         | Inr output \<Rightarrow>
       (case tool_call_pulls (if output_iterable E output then k else 0) ?P i g h2 of
           (ok', g', h3) \<Rightarrow>
             if \<not> ok' then ([Structured output], Some AssertionError, h3)
             else if tool_call_ref h3 = [] \<and> \<not> exhausted h3 then
               (if \<not> output_iterable E output then ([Structured output], Some AssertionError, h3)
                else
                  (case tool_call_consume ?P i g' h3 of
                     (ok'', g'', h4) \<Rightarrow>
                       ([Structured output], if ok'' then None else Some AssertionError, h4)))
             else ([Structured output], None, h3))) = (out, err, h')"
        by (simp add: tool_group_def)
      show ?thesis
      proof (cases "validate S acc")
        case (Inl e)
        with tg2 cid cnm Some acc show ?thesis by (auto simp: call_step_def)
      next
        case (Inr v)
        let ?cont = "reads_to_end S [] ?args \<or> output_iterable E v"
        from cid cnm Some acc Inr
        have cs: "call_step E chunk (chunks_ahead ?P h) = Some (i, v, ?cont)"
          by (simp add: call_step_def)
        let ?k = "if output_iterable E v then k else 0"
        obtain ok' g3 h3 where pl: "tool_call_pulls ?k ?P i g h2 = (ok', g3, h3)"
          by (cases "tool_call_pulls ?k ?P i g h2")
        from call_reads_pulls [OF pl cr2] obtain zs where
          ok': ok' and cr3: "call_reads ?P i ?hs (acc @ zs) g3 h3" by auto
        have out: "out = [Structured v]"
          using tg2 Inr pl by (auto split: if_splits prod.splits)
        have errc: "err = None \<longleftrightarrow> ?cont"
        proof (cases "output_iterable E v")
          case True
          show ?thesis
          proof (cases "tool_call_ref h3 = [] \<and> \<not> exhausted h3")
            case False
            with tg2 Inr pl ok' True show ?thesis by auto
          next
            case t: True
            obtain ok'' g4 h4 where cn: "tool_call_consume ?P i g3 h3 = (ok'', g4, h4)"
              by (cases "tool_call_consume ?P i g3 h3")
            from call_reads_consume [OF cn cr3] have ok'' by simp
            with tg2 Inr pl ok' True t cn show ?thesis by auto
          qed
        next
          case False
          with pl have e3: "g3 = g" "h3 = h2" by simp_all
          show ?thesis
          proof (cases g)
            case Active
            with cr2 ex0 have "tool_call_ref h2 = [] \<and> \<not> exhausted h2"
              by (simp add: call_reads_def)
            with tg2 Inr pl ok' False e3 Active gd show ?thesis by auto
          next
            case Done
            have "\<not> (tool_call_ref h2 = [] \<and> \<not> exhausted h2)"
            proof (cases "dropWhile (\<lambda>d. \<not> new_call i d) (chunks_ahead ?P ?hs)")
              case Nil
              with cr2 Done show ?thesis
                by (simp add: call_reads_def del: dropWhile_eq_Nil_conv)
            next
              case (Cons b rest)
              with cr2 Done show ?thesis by (simp add: call_reads_def)
            qed
            with tg2 Inr pl ok' False e3 Done gd show ?thesis by auto
          qed
        qed
        have nxt: "case dropWhile (\<lambda>d. \<not> new_call i d) (chunks_ahead ?P h) of
                   [] \<Rightarrow> tool_call_ref h' = []
                 | b # rest \<Rightarrow> tool_call_ref h' = [b] \<and> chunks_ahead ?P h' = rest"
          if "err = None"
        proof -
          from tool_group_result [OF tg ref nex] that cid obtain ys where
            cr: "call_reads ?P i ?hs ys Done h'" by auto
          show ?thesis
          proof (cases "dropWhile (\<lambda>d. \<not> new_call i d) (chunks_ahead ?P h)")
            case Nil
            with cr dw show ?thesis by (simp add: call_reads_def del: dropWhile_eq_Nil_conv)
          next
            case (Cons b rest)
            with cr dw show ?thesis by (simp add: call_reads_def)
          qed
        qed
        from cs out errc nxt show ?thesis by simp
      qed
    qed
  qed
qed

lemma tool_loop_segments:
  assumes "tool_inv src h" and "tool_loop n E c segs h = (segs', h', out)"
    and "out \<noteq> OutOfFuel"
  shows "segs' = segs @ map Structured
           (case tool_call_ref h of
              [] \<Rightarrow> []
            | chunk # cs \<Rightarrow> calls E (chunk # chunks_ahead (parser E) h))"
  using assms
proof (induction n arbitrary: segs h)
  case 0
  then show ?case by (auto split: if_splits)
next
  case (Suc n)
  let ?P = "parser E"
  show ?case
  proof (cases "tool_call_ref h = []")
    case True
    with Suc.prems show ?thesis by simp
  next
    case False
    with Suc.prems(1) obtain chunk where ref: "tool_call_ref h = [chunk]" and nex: "\<not> exhausted h"
      by (cases "tool_call_ref h") (auto simp: tool_inv_def)
    obtain new err h1 where tg: "tool_group E (c (length segs)) h = (new, err, h1)"
      by (cases "tool_group E (c (length segs)) h")
    note gi = tool_group_inv [OF Suc.prems(1) False tg]
    note st = tool_group_step [OF tg ref nex]
    show ?thesis
    proof (cases "call_step E chunk (chunks_ahead ?P h)")
      case None
      with st obtain e where "new = []" "err = Some e" by auto
      with False tg Suc.prems(2) ref None show ?thesis by (simp add: calls.simps(2))
    next
      case (Some r)
      obtain i v continues where r: "r = (i, v, continues)" by (cases r)
      from st Some r have new: "new = [Structured v]" and ec: "err = None \<longleftrightarrow> continues"
        by simp_all
      show ?thesis
      proof (cases continues)
        case False
        with ec obtain e where "err = Some e" by auto
        with \<open>tool_call_ref h \<noteq> []\<close> tg Suc.prems(2) ref Some r new False show ?thesis
          by (simp add: calls.simps(2))
      next
        case True
        with ec have err: "err = None" by simp
        with \<open>tool_call_ref h \<noteq> []\<close> tg Suc.prems(2) new
        have tl: "tool_loop n E c (segs @ [Structured v]) h1 = (segs', h', out)" by simp
        from gi err have inv1: "tool_inv src h1" by simp
        note ih = Suc.IH [OF inv1 tl Suc.prems(3)]
        have "(case tool_call_ref h1 of [] \<Rightarrow> []
               | chunk # cs \<Rightarrow> calls E (chunk # chunks_ahead ?P h1)) =
              calls E (dropWhile (\<lambda>d. \<not> new_call i d) (chunks_ahead ?P h))"
        proof (cases "dropWhile (\<lambda>d. \<not> new_call i d) (chunks_ahead ?P h)")
          case Nil
          with st Some r True show ?thesis by (simp del: dropWhile_eq_Nil_conv)
        next
          case (Cons b rest)
          with st Some r True show ?thesis by simp
        qed
        with ih ref Some r True show ?thesis by (simp add: calls.simps(2))
      qed
    qed
  qed
qed

lemma stream_loop_empty:
  "current_item_ref h = [] \<Longrightarrow> stream_loop n E c segs h = (segs, h, Completed)"
  by (cases n) simp_all

lemma tool_loop_empty:
  "tool_call_ref h = [] \<Longrightarrow> tool_loop n E c segs h = (segs, h, Completed)"
  by (cases n) simp_all

text \<open>The outer loop, from a lookahead event and the events still in the stream.\<close>

lemma stream_loop_segments:
  fixes E :: "('item, 'o, 'e) OutputStream"
  assumes "loop_inv src h"
    and "\<forall>x\<in>set src. \<not> (is_content (parser E) x \<and> is_tool_call (parser E) x)"
    and "stream_loop n E c segs h = (segs', h', out)"
    and "out \<noteq> OutOfFuel"
  shows "\<exists>new. segs' = segs @ new \<and>
           map merge new =
             (case current_item_ref h of
                [] \<Rightarrow> []
              | x # xs \<Rightarrow> segments_from E (x # fresh (stream h)))"
  using assms
proof (induction n arbitrary: segs h)
  case 0
  then show ?case by (auto split: if_splits)
next
  case (Suc n)
  let ?P = "parser E"
  note nd = Suc.prems(2)
  show ?case
  proof (cases "current_item_ref h")
    case Nil
    with Suc.prems show ?thesis by auto
  next
    case (Cons x xs)
    with Suc.prems(1) have ref: "current_item_ref h = [x]" and nex: "\<not> exhausted h"
      and src: "updated h @ fresh (stream h) = src" and af: "list_all is_fresh (stream h)"
      and une: "updated h \<noteq> []" and lst: "last (updated h) = x"
      by (simp_all add: loop_inv_def)
    from une lst src have xin: "x \<in> set src" by (metis last_in_set UnCI set_append)
    let ?h1 = "h\<lparr>current_item_ref := []\<rparr>"
    show ?thesis
    proof (cases "is_content ?P x")
      case True
      obtain new :: "'o segment list" and err :: "('item, 'e) error option" and h2
        where tg: "text_group ?P (c (length segs)) x ?h1 = (new, err, h2)"
        by (cases "text_group ?P (c (length segs)) x ?h1 ::
              'o segment list \<times> ('item, 'e) error option \<times> 'item heap")
      from text_group_inv [OF Suc.prems(1) ref tg] obtain taken drained where
        err: "err = None" and inv2: "loop_inv src h2" and new: "new = [Text taken drained]"
        and fr: "taken @ drained = text_frags ?P (x # fresh (stream h))"
        and dw: "current_item_ref h2 @ fresh (stream h2) =
           dropWhile (\<lambda>z. \<not> is_tool_call ?P z) (x # fresh (stream h))"
        and emp: "current_item_ref h2 = [] \<longrightarrow> stream h2 = []"
        and tcn: "\<forall>y. current_item_ref h2 = [y] \<longrightarrow> is_tool_call ?P y"
        by auto
      from ref True tg err new Suc.prems(3)
      have sl: "stream_loop n E c (segs @ [Text taken drained]) h2 = (segs', h', out)" by simp
      from Suc.IH [OF inv2 nd sl Suc.prems(4)] obtain rest where
        r1: "segs' = (segs @ [Text taken drained]) @ rest"
        and r2: "map merge rest =
           (case current_item_ref h2 of [] \<Rightarrow> []
            | y # ys \<Rightarrow> segments_from E (y # fresh (stream h2)))"
        by blast
      have "map merge rest =
          tool_segments E (dropWhile (\<lambda>z. \<not> is_tool_call ?P z) (x # fresh (stream h)))"
      proof (cases "current_item_ref h2")
        case Nil
        with emp have "current_item_ref h2 @ fresh (stream h2) = []" by simp
        with dw have "dropWhile (\<lambda>z. \<not> is_tool_call ?P z) (x # fresh (stream h)) = []"
          by (simp only:)
        then have "tool_segments E (dropWhile (\<lambda>z. \<not> is_tool_call ?P z) (x # fresh (stream h))) = []"
          by (simp only: tool_segments_def list.map concat.simps calls.simps(1))
        with Nil r2 show ?thesis by (simp del: dropWhile.simps)
      next
        case (Cons y ys)
        with inv2 have ref2: "current_item_ref h2 = [y]" and u2: "updated h2 \<noteq> []"
          and l2: "last (updated h2) = y" and s2: "updated h2 @ fresh (stream h2) = src"
          by (simp_all add: loop_inv_def)
        from u2 l2 s2 have "y \<in> set src" by (metis last_in_set UnCI set_append)
        moreover from tcn ref2 have "is_tool_call ?P y" by simp
        ultimately have "\<not> is_content ?P y" using nd by auto
        with \<open>is_tool_call ?P y\<close> ref2 r2 dw [symmetric] show ?thesis
          by (simp del: dropWhile.simps)
      qed
      with r1 fr ref True show ?thesis
        by (intro exI [of _ "Text taken drained # rest"]) (simp del: dropWhile.simps)
    next
      case nc: False
      show ?thesis
      proof (cases "is_tool_call ?P x")
        case True
        let ?h2 = "?h1\<lparr>stream := Chained x # stream ?h1, tool_calls_stream := []\<rparr>"
        obtain q h3 where nch: "next_chunk ?P ?h2 = (q, h3)" by (cases "next_chunk ?P ?h2")
        note fr = next_chunk_frame [OF nch]
        from fr src have c3: "updated h3 @ fresh (stream h3) = src" "current_item_ref h3 = []"
          "exhausted h3 = exhausted h"
          by simp_all
        have ca: "chunks_ahead ?P ?h2 =
            concat (map (iter_tool_calls ?P) (x # fresh (stream h)))"
          using af by (simp add: chunks_ahead_def fresh_items [symmetric] comp_def)
        show ?thesis
        proof (cases q)
          case None
          with fr ca have "concat (map (iter_tool_calls ?P) (x # fresh (stream h))) = []"
            by simp
          then have "tool_segments E (x # fresh (stream h)) = []"
            by (simp only: tool_segments_def calls.simps(1) list.map)
          with ref nc True nch None Suc.prems(3) show ?thesis by auto
        next
          case (Some chunk)
          obtain segs2 h4 out2 where
            tl: "tool_loop n E c segs (h3\<lparr>tool_call_ref := [chunk]\<rparr>) = (segs2, h4, out2)"
            by (cases "tool_loop n E c segs (h3\<lparr>tool_call_ref := [chunk]\<rparr>)")
          from c3 nex have ti: "tool_inv src (h3\<lparr>tool_call_ref := [chunk]\<rparr>)"
            by (simp add: tool_inv_def)
          from tool_loop_inv [OF ti tl] have "current_item_ref h4 = []" by simp
          then have fin: "stream_loop n E c segs2 h4 = (segs2, h4, Completed)"
            by (rule stream_loop_empty)
          from ref nc True nch Some tl fin Suc.prems(3)
          have res: "segs' = segs2" "out = out2"
            by (auto split: outcome.splits)
          with Suc.prems(4) have "out2 \<noteq> OutOfFuel" by simp
          from tool_loop_segments [OF ti tl this]
          have "segs2 = segs @ map Structured (calls E (chunk # chunks_ahead ?P h3))" by simp
          moreover from fr Some ca
          have "chunk # chunks_ahead ?P h3 =
              concat (map (iter_tool_calls ?P) (x # fresh (stream h)))"
            by simp
          ultimately have "segs' = segs @ tool_segments E (x # fresh (stream h))"
            using res by (simp only: tool_segments_def)
          with ref nc True show ?thesis
            by (intro exI [of _ "tool_segments E (x # fresh (stream h))"])
               (simp add: tool_segments_def merge_Structured)
        qed
      next
        case False
        show ?thesis
        proof (cases "next_item ?h1")
          case None
          then have "stream h = []" by (simp add: next_item_None)
          moreover from ref nc False None Suc.prems(3)
          have "stream_loop n E c segs ?h1 = (segs', h', out)" by simp
          then have "segs' = segs" by (simp add: stream_loop_empty)
          ultimately show ?thesis using ref nc False by simp
        next
          case (Some p)
          obtain y h2 where p: "p = (y, h2)" by (cases p)
          let ?h3 = "h2\<lparr>current_item_ref := current_item_ref h2 @ [y]\<rparr>"
          note ni = next_item_Some [OF Some [unfolded p]]
          from ni(1) obtain cl where cl: "stream h = cl # stream h2" "item_of cl = y" by auto
          with af have cf: "cl = Fresh y" by (cases cl) auto
          with ni(2) cl have "updated h2 @ fresh (stream h2) = (updated h @ [y]) @ fresh (stream h2)"
            by simp
          then have up: "updated h2 = updated h @ [y]" by simp
          from cl cf have fs: "fresh (stream h) = y # fresh (stream h2)" by simp
          show ?thesis
          proof (cases "item_truthy E y")
            case True
            from ni cl af src nex up have inv3: "loop_inv src ?h3"
              by (simp add: loop_inv_def)
            from ref nc False Some p True Suc.prems(3)
            have sl: "stream_loop n E c segs ?h3 = (segs', h', out)" by simp
            from Suc.IH [OF inv3 nd sl Suc.prems(4)] ni ref nc False True fs show ?thesis
              by simp
          next
            case falsy: False
            from ni have "current_item_ref h2 = []" by simp
            then have "stream_loop n E c segs h2 = (segs, h2, Completed)"
              by (rule stream_loop_empty)
            with ref nc False Some p falsy Suc.prems(3) have "segs' = segs" by simp
            with ref nc False falsy fs show ?thesis by simp
          qed
        qed
      qed
    qed
  qed
qed

text \<open>
  The events updated, followed by those still in the stream, are the source. When every
  event of the source is true in Python, a run that completes has emptied the stream.
\<close>

lemma stream_loop_log:
  fixes E :: "('item, 'o, 'e) OutputStream"
  assumes "loop_inv src h"
    and "current_item_ref h = [] \<longrightarrow> stream h = []"
    and "stream_loop n E c segs h = (segs', h', out)"
  shows "updated h' @ fresh (stream h') = src \<and>
         ((\<forall>x\<in>set src. item_truthy E x) \<longrightarrow> out = Completed \<longrightarrow> stream h' = [])"
  using assms
proof (induction n arbitrary: segs h)
  case 0
  then show ?case by (auto simp: loop_inv_def split: if_splits)
next
  case (Suc n)
  let ?P = "parser E"
  show ?case
  proof (cases "current_item_ref h")
    case Nil
    with Suc.prems show ?thesis by (auto simp: loop_inv_def)
  next
    case (Cons x xs)
    with Suc.prems(1) have ref: "current_item_ref h = [x]" and nex: "\<not> exhausted h"
      and src: "updated h @ fresh (stream h) = src" and af: "list_all is_fresh (stream h)"
      by (simp_all add: loop_inv_def)
    let ?h1 = "h\<lparr>current_item_ref := []\<rparr>"
    show ?thesis
    proof (cases "is_content ?P x")
      case True
      obtain new :: "'o segment list" and err :: "('item, 'e) error option" and h2
        where tg: "text_group ?P (c (length segs)) x ?h1 = (new, err, h2)"
        by (cases "text_group ?P (c (length segs)) x ?h1 ::
              'o segment list \<times> ('item, 'e) error option \<times> 'item heap")
      from text_group_inv [OF Suc.prems(1) ref tg]
      have err: "err = None" and inv2: "loop_inv src h2"
        and emp: "current_item_ref h2 = [] \<longrightarrow> stream h2 = []"
        by auto
      from ref True tg err Suc.prems(3)
      have sl: "stream_loop n E c (segs @ new) h2 = (segs', h', out)" by simp
      from Suc.IH [OF inv2 emp sl] show ?thesis .
    next
      case nc: False
      show ?thesis
      proof (cases "is_tool_call ?P x")
        case True
        let ?h2 = "?h1\<lparr>stream := Chained x # stream ?h1, tool_calls_stream := []\<rparr>"
        obtain q h3 where nch: "next_chunk ?P ?h2 = (q, h3)" by (cases "next_chunk ?P ?h2")
        note fr = next_chunk_frame [OF nch]
        from fr src have c3: "updated h3 @ fresh (stream h3) = src" "current_item_ref h3 = []"
          "exhausted h3 = exhausted h"
          by simp_all
        show ?thesis
        proof (cases q)
          case None
          with ref nc True nch Suc.prems(3) c3 show ?thesis by auto
        next
          case (Some chunk)
          obtain segs2 h4 out2 where
            tl: "tool_loop n E c segs (h3\<lparr>tool_call_ref := [chunk]\<rparr>) = (segs2, h4, out2)"
            by (cases "tool_loop n E c segs (h3\<lparr>tool_call_ref := [chunk]\<rparr>)")
          from c3 nex have "tool_inv src (h3\<lparr>tool_call_ref := [chunk]\<rparr>)"
            by (simp add: tool_inv_def)
          from tool_loop_inv [OF this tl] have
            t4: "updated h4 @ fresh (stream h4) = src" "current_item_ref h4 = []"
              "out2 = Completed \<longrightarrow> stream h4 = []"
            by auto
          from t4(2) have fin: "stream_loop n E c segs2 h4 = (segs2, h4, Completed)"
            by (rule stream_loop_empty)
          from ref nc True nch Some tl fin Suc.prems(3)
          have res: "h' = h4" "out = out2"
            by (auto split: outcome.splits)
          with t4 show ?thesis by simp
        qed
      next
        case False
        show ?thesis
        proof (cases "next_item ?h1")
          case None
          then have "stream h = []" by (simp add: next_item_None)
          moreover from ref nc False None Suc.prems(3)
          have "stream_loop n E c segs ?h1 = (segs', h', out)" by simp
          then have "h' = ?h1" by (simp add: stream_loop_empty)
          ultimately show ?thesis using src by simp
        next
          case (Some p)
          obtain y h2 where p: "p = (y, h2)" by (cases p)
          let ?h3 = "h2\<lparr>current_item_ref := current_item_ref h2 @ [y]\<rparr>"
          note ni = next_item_Some [OF Some [unfolded p]]
          from ni(1) obtain cl where cl: "stream h = cl # stream h2" "item_of cl = y" by auto
          with af have cf: "cl = Fresh y" by (cases cl) auto
          with ni(2) cl have "updated h2 @ fresh (stream h2) = (updated h @ [y]) @ fresh (stream h2)"
            by simp
          then have up: "updated h2 = updated h @ [y]" by simp
          from ni(2) src have s2: "updated h2 @ fresh (stream h2) = src" by simp
          show ?thesis
          proof (cases "item_truthy E y")
            case True
            from ni cl af src nex up have inv3: "loop_inv src ?h3"
              by (simp add: loop_inv_def)
            have ne3: "current_item_ref ?h3 = [] \<longrightarrow> stream ?h3 = []" by simp
            from ref nc False Some p True Suc.prems(3)
            have sl: "stream_loop n E c segs ?h3 = (segs', h', out)" by simp
            from Suc.IH [OF inv3 ne3 sl] show ?thesis .
          next
            case falsy: False
            from ni have "current_item_ref h2 = []" by simp
            then have "stream_loop n E c segs h2 = (segs, h2, Completed)"
              by (rule stream_loop_empty)
            with ref nc False Some p falsy Suc.prems(3) have h': "h' = h2" by simp
            from up s2 have "y \<in> set src" by (metis in_set_conv_decomp append_assoc append_Cons)
            with falsy have "\<not> (\<forall>x\<in>set src. item_truthy E x)" by auto
            with h' s2 show ?thesis by blast
          qed
        qed
      qed
    qed
  qed
qed

text \<open>The same on a whole run.\<close>

lemma fresh_map_Fresh: "fresh (map Fresh xs) = xs"
  by (induction xs) auto

lemma all_fresh_map_Fresh: "list_all is_fresh (map Fresh xs)"
  by (induction xs) auto

lemma OutputStream_stream_start:
  "OutputStream_stream n E c (x # rest) =
     stream_loop n E c []
       \<lparr>stream = map Fresh rest, tool_calls_stream = [], updated = [x], exhausted = False,
        current_item_ref = [x], tool_call_ref = []\<rparr>"
  by (simp add: OutputStream_stream_def initial_heap_def next_item_def)

lemma loop_inv_start:
  "loop_inv (x # rest)
     \<lparr>stream = map Fresh rest, tool_calls_stream = [], updated = [x], exhausted = False,
      current_item_ref = [x], tool_call_ref = []\<rparr>"
  by (simp add: loop_inv_def fresh_map_Fresh all_fresh_map_Fresh)

lemma OutputStream_stream_log:
  fixes E :: "('item, 'o, 'e) OutputStream"
  assumes "OutputStream_stream n E c src = (segs, h, out)"
  shows "updated h @ fresh (stream h) = src \<and>
         ((\<forall>x\<in>set src. item_truthy E x) \<longrightarrow> out = Completed \<longrightarrow> updated h = src)"
proof (cases src)
  case Nil
  with assms show ?thesis
    by (auto simp: OutputStream_stream_def initial_heap_def next_item_def)
next
  case (Cons x rest)
  let ?h = "\<lparr>stream = map Fresh rest, tool_calls_stream = [], updated = [x], exhausted = False,
      current_item_ref = [x], tool_call_ref = []\<rparr>"
  from Cons assms have sl: "stream_loop n E c [] ?h = (segs, h, out)"
    by (simp add: OutputStream_stream_start)
  have inv: "loop_inv src ?h" unfolding Cons by (rule loop_inv_start)
  have "current_item_ref ?h = [] \<longrightarrow> stream ?h = []" by simp
  from stream_loop_log [OF inv this sl] show ?thesis by auto
qed

lemma OutputStream_stream_segments:
  fixes E :: "('item, 'o, 'e) OutputStream"
  assumes "\<forall>x\<in>set src. \<not> (is_content (parser E) x \<and> is_tool_call (parser E) x)"
    and "OutputStream_stream n E c src = (segs, h, out)"
    and "out \<noteq> OutOfFuel"
  shows "map merge segs = segments_from E src"
proof (cases src)
  case Nil
  with assms(2) show ?thesis
    by (auto simp: OutputStream_stream_def initial_heap_def next_item_def)
next
  case (Cons x rest)
  let ?h = "\<lparr>stream = map Fresh rest, tool_calls_stream = [], updated = [x], exhausted = False,
      current_item_ref = [x], tool_call_ref = []\<rparr>"
  from Cons assms(2) have sl: "stream_loop n E c [] ?h = (segs, h, out)"
    by (simp add: OutputStream_stream_start)
  have inv: "loop_inv src ?h" unfolding Cons by (rule loop_inv_start)
  from stream_loop_segments [OF inv assms(1) sl assms(3)] Cons show ?thesis
    by (simp add: fresh_map_Fresh)
qed

section \<open>Enough fuel ends a run\<close>

text \<open>
  A pass of the inner loop that leaves a lookahead chunk has shortened the chunks still
  to be delivered; a pass of the outer loop on an event that is not a tool call, if it
  leaves a lookahead event, has shortened the stream. So unless some event is
  classified both as content and as a tool call, a run with at least as much fuel as
  the source has events and chunks does not run out of fuel: it completes or raises.
\<close>

definition loop_weight :: "'item StreamParser \<Rightarrow> 'item heap \<Rightarrow> nat" where
  "loop_weight P h =
     length (stream h) + length (concat (map (\<lambda>c. iter_tool_calls P (item_of c)) (stream h))) +
     length (concat (map (iter_tool_calls P) (current_item_ref h)))"

lemma tool_group_progress:
  assumes tg: "tool_group E k h = (out, None, h')"
    and ref: "tool_call_ref h = [chunk]"
    and nex: "\<not> exhausted h"
    and ne: "tool_call_ref h' \<noteq> []"
  shows "length (chunks_ahead (parser E) h') < length (chunks_ahead (parser E) h)"
proof -
  let ?P = "parser E"
  from tool_group_result [OF tg ref nex] obtain i ys where
    cid: "chunk_id chunk = Some i"
    and cr: "call_reads ?P i (call_start chunk h) ys Done h'"
    by auto
  have ca: "chunks_ahead ?P (call_start chunk h) = chunk # chunks_ahead ?P h"
    by (simp add: chunks_ahead_def call_start_def)
  from cid have nn: "\<not> new_call i chunk" by (simp add: new_call_def)
  let ?d = "dropWhile (\<lambda>c. \<not> new_call i c) (chunks_ahead ?P h)"
  from ca nn have dw: "dropWhile (\<lambda>c. \<not> new_call i c) (chunks_ahead ?P (call_start chunk h)) = ?d"
    by simp
  show ?thesis
  proof (cases ?d)
    case Nil
    with cr dw ne show ?thesis
      by (simp add: call_reads_def del: dropWhile_eq_Nil_conv)
  next
    case (Cons b rest)
    with cr dw have "chunks_ahead ?P h' = rest" by (simp add: call_reads_def)
    moreover have "length ?d \<le> length (chunks_ahead ?P h)" by (rule length_dropWhile_le)
    ultimately show ?thesis using Cons by simp
  qed
qed

lemma tool_loop_ends:
  assumes "tool_inv src h" and "length (chunks_ahead (parser E) h) < n"
    and "tool_loop n E c segs h = (segs', h', out)"
  shows "out \<noteq> OutOfFuel"
  using assms
proof (induction n arbitrary: segs h)
  case 0
  then show ?case by simp
next
  case (Suc n)
  show ?case
  proof (cases "tool_call_ref h = []")
    case True
    with Suc.prems(3) show ?thesis by simp
  next
    case False
    with Suc.prems(1) obtain chunk where ref: "tool_call_ref h = [chunk]" and nex: "\<not> exhausted h"
      by (cases "tool_call_ref h") (auto simp: tool_inv_def)
    obtain new err h1 where tg: "tool_group E (c (length segs)) h = (new, err, h1)"
      by (cases "tool_group E (c (length segs)) h")
    note gi = tool_group_inv [OF Suc.prems(1) False tg]
    show ?thesis
    proof (cases err)
      case (Some e)
      with False tg Suc.prems(3) show ?thesis by auto
    next
      case None
      with False tg Suc.prems(3) have tl: "tool_loop n E c (segs @ new) h1 = (segs', h', out)"
        by simp
      from gi None have inv1: "tool_inv src h1" by simp
      show ?thesis
      proof (cases "tool_call_ref h1 = []")
        case True
        with tl show ?thesis by (simp add: tool_loop_empty)
      next
        case ne: False
        from tool_group_progress [OF tg [unfolded None] ref nex ne] Suc.prems(2)
        have "length (chunks_ahead (parser E) h1) < n" by simp
        from Suc.IH [OF inv1 this tl] show ?thesis .
      qed
    qed
  qed
qed

lemma text_group_progress:
  assumes inv: "loop_inv src h" and ref: "current_item_ref h = [x]"
    and ntc: "\<not> is_tool_call P x"
    and tg: "text_group P k x (h\<lparr>current_item_ref := []\<rparr>) = (out, err, h')"
    and ne: "current_item_ref h' \<noteq> []"
  shows "loop_weight P h' < loop_weight P h"
proof -
  let ?h1 = "h\<lparr>current_item_ref := []\<rparr>"
  let ?p = "\<lambda>c. \<not> is_tool_call P (item_of c)"
  from inv ref have nex: "\<not> exhausted h" by (simp add: loop_inv_def)
  have r1: "current_item_ref ?h1 = []" and n1: "\<not> exhausted ?h1" using nex by simp_all
  note post = text_group_post [OF tg r1 n1]
  show ?thesis
  proof (cases "dropWhile ?p (Chained x # stream h)")
    case Nil
    with post ne show ?thesis by (simp del: dropWhile_eq_Nil_conv dropWhile.simps)
  next
    case (Cons b rest)
    with post have h': "current_item_ref h' = [item_of b]" "stream h' = rest"
      by (simp_all del: dropWhile.simps)
    from Cons ntc have "dropWhile ?p (stream h) = b # rest" by simp
    then have sp: "stream h = takeWhile ?p (stream h) @ b # rest"
      by (simp add: dropWhile_eq_Cons_conv)
    have "loop_weight P h =
        length (takeWhile ?p (stream h) @ b # rest) +
        length (concat (map (\<lambda>c. iter_tool_calls P (item_of c)) (takeWhile ?p (stream h) @ b # rest))) +
        length (iter_tool_calls P x)"
      using ref sp by (simp add: loop_weight_def)
    with h' show ?thesis by (simp add: loop_weight_def)
  qed
qed

lemma stream_loop_ends:
  fixes E :: "('item, 'o, 'e) OutputStream"
  assumes "loop_inv src h"
    and "\<forall>x\<in>set src. \<not> (is_content (parser E) x \<and> is_tool_call (parser E) x)"
    and "loop_weight (parser E) h < n"
    and "stream_loop n E c segs h = (segs', h', out)"
  shows "out \<noteq> OutOfFuel"
  using assms
proof (induction n arbitrary: segs h)
  case 0
  then show ?case by simp
next
  case (Suc n)
  let ?P = "parser E"
  show ?case
  proof (cases "current_item_ref h")
    case Nil
    with Suc.prems(4) show ?thesis by simp
  next
    case (Cons x xs)
    with Suc.prems(1) have ref: "current_item_ref h = [x]" and nex: "\<not> exhausted h"
      and src: "updated h @ fresh (stream h) = src" and af: "list_all is_fresh (stream h)"
      and une: "updated h \<noteq> []" and lst: "last (updated h) = x"
      by (simp_all add: loop_inv_def)
    from une lst src have xin: "x \<in> set src" by (metis last_in_set UnCI set_append)
    let ?h1 = "h\<lparr>current_item_ref := []\<rparr>"
    show ?thesis
    proof (cases "is_content ?P x")
      case True
      with xin Suc.prems(2) have ntc: "\<not> is_tool_call ?P x" by auto
      obtain new :: "'o segment list" and err :: "('item, 'e) error option" and h2
        where tg: "text_group ?P (c (length segs)) x ?h1 = (new, err, h2)"
        by (cases "text_group ?P (c (length segs)) x ?h1 ::
              'o segment list \<times> ('item, 'e) error option \<times> 'item heap")
      from text_group_inv [OF Suc.prems(1) ref tg]
      have err: "err = None" and inv2: "loop_inv src h2" by auto
      from ref True tg err Suc.prems(4)
      have sl: "stream_loop n E c (segs @ new) h2 = (segs', h', out)" by simp
      show ?thesis
      proof (cases "current_item_ref h2 = []")
        case True
        with sl show ?thesis by (simp add: stream_loop_empty)
      next
        case False
        from text_group_progress [OF Suc.prems(1) ref ntc tg False] Suc.prems(3)
        have "loop_weight ?P h2 < n" by simp
        from Suc.IH [OF inv2 Suc.prems(2) this sl] show ?thesis .
      qed
    next
      case nc: False
      show ?thesis
      proof (cases "is_tool_call ?P x")
        case True
        let ?h2 = "?h1\<lparr>stream := Chained x # stream ?h1, tool_calls_stream := []\<rparr>"
        obtain q h3 where nch: "next_chunk ?P ?h2 = (q, h3)" by (cases "next_chunk ?P ?h2")
        note fr = next_chunk_frame [OF nch]
        from fr src have c3: "updated h3 @ fresh (stream h3) = src" "current_item_ref h3 = []"
          "exhausted h3 = exhausted h"
          by simp_all
        show ?thesis
        proof (cases q)
          case None
          with ref nc True nch Suc.prems(4) show ?thesis by auto
        next
          case (Some chunk)
          obtain segs2 h4 out2 where
            tl: "tool_loop n E c segs (h3\<lparr>tool_call_ref := [chunk]\<rparr>) = (segs2, h4, out2)"
            by (cases "tool_loop n E c segs (h3\<lparr>tool_call_ref := [chunk]\<rparr>)")
          from c3 nex have ti: "tool_inv src (h3\<lparr>tool_call_ref := [chunk]\<rparr>)"
            by (simp add: tool_inv_def)
          from fr Some have "chunks_ahead ?P ?h2 = chunk # chunks_ahead ?P h3" by simp
          moreover have "length (chunks_ahead ?P ?h2) \<le> loop_weight ?P h"
            using ref by (simp add: chunks_ahead_def loop_weight_def)
          ultimately have "length (chunks_ahead ?P (h3\<lparr>tool_call_ref := [chunk]\<rparr>)) < n"
            using Suc.prems(3) by simp
          from tool_loop_ends [OF ti this tl] have o2: "out2 \<noteq> OutOfFuel" .
          from tool_loop_inv [OF ti tl] have "current_item_ref h4 = []" by simp
          then have fin: "stream_loop n E c segs2 h4 = (segs2, h4, Completed)"
            by (rule stream_loop_empty)
          from ref nc True nch Some tl fin Suc.prems(4) have "out = out2"
            by (auto split: outcome.splits)
          with o2 show ?thesis by simp
        qed
      next
        case False
        show ?thesis
        proof (cases "next_item ?h1")
          case None
          with ref nc False Suc.prems(4)
          have "stream_loop n E c segs ?h1 = (segs', h', out)" by simp
          then show ?thesis by (simp add: stream_loop_empty)
        next
          case (Some p)
          obtain y h2 where p: "p = (y, h2)" by (cases p)
          let ?h3 = "h2\<lparr>current_item_ref := current_item_ref h2 @ [y]\<rparr>"
          note ni = next_item_Some [OF Some [unfolded p]]
          from ni(1) obtain cl where cl: "stream h = cl # stream h2" "item_of cl = y" by auto
          with af have "cl = Fresh y" by (cases cl) auto
          with ni(2) cl have "updated h2 @ fresh (stream h2) = (updated h @ [y]) @ fresh (stream h2)"
            by simp
          then have up: "updated h2 = updated h @ [y]" by simp
          show ?thesis
          proof (cases "item_truthy E y")
            case True
            from ni cl af src nex up have inv3: "loop_inv src ?h3"
              by (simp add: loop_inv_def)
            from ni cl ref have "loop_weight ?P ?h3 < loop_weight ?P h"
              by (simp add: loop_weight_def)
            with Suc.prems(3) have w3: "loop_weight ?P ?h3 < n" by simp
            from ref nc False Some p True Suc.prems(4)
            have sl: "stream_loop n E c segs ?h3 = (segs', h', out)" by simp
            from Suc.IH [OF inv3 Suc.prems(2) w3 sl] show ?thesis .
          next
            case falsy: False
            from ni have "current_item_ref h2 = []" by simp
            then have "stream_loop n E c segs h2 = (segs, h2, Completed)"
              by (rule stream_loop_empty)
            with ref nc False Some p falsy Suc.prems(4) show ?thesis by simp
          qed
        qed
      qed
    qed
  qed
qed

lemma run_ends:
  fixes E :: "('item, 'o, 'e) OutputStream"
  assumes "\<forall>x\<in>set src. \<not> (is_content (parser E) x \<and> is_tool_call (parser E) x)"
    and "length src + length (concat (map (iter_tool_calls (parser E)) src)) \<le> n"
  shows "snd (snd (OutputStream_stream n E c src)) \<noteq> OutOfFuel"
proof (cases src)
  case Nil
  then show ?thesis by (simp add: OutputStream_stream_def initial_heap_def next_item_def)
next
  case (Cons x rest)
  have fm: "fresh (map Fresh xs) = xs" for xs :: "'item list" by (induction xs) auto
  have am: "list_all is_fresh (map Fresh xs)" for xs :: "'item list" by (induction xs) auto
  let ?h = "\<lparr>stream = map Fresh rest, tool_calls_stream = [], updated = [x], exhausted = False,
      current_item_ref = [x], tool_call_ref = []\<rparr>"
  obtain segs h out where sl: "stream_loop n E c [] ?h = (segs, h, out)"
    by (cases "stream_loop n E c [] ?h")
  with Cons have run: "OutputStream_stream n E c src = (segs, h, out)"
    by (simp add: OutputStream_stream_def initial_heap_def next_item_def)
  have inv: "loop_inv src ?h" using Cons by (simp add: loop_inv_def fm am)
  from Cons assms(2) have "loop_weight (parser E) ?h < n"
    by (simp add: loop_weight_def comp_def)
  from stream_loop_ends [OF inv assms(1) this sl] run show ?thesis by simp
qed

section \<open>Collaborators for the scenarios of the spec\<close>

text \<open>
  A raw event that carries its own classification, so that the parser below can realise
  any behaviour of a \<^verbatim>\<open>StreamParser\<close>: whether it is content, its extracted content,
  whether it is a tool call, and its chunks. Events are true in Python unless said
  otherwise.
\<close>

datatype event = Event bool "string option" bool "FunctionCallChunk list"

fun ev_is_content :: "event \<Rightarrow> bool" where
  "ev_is_content (Event a b c d) = a"

fun ev_get_content :: "event \<Rightarrow> string option" where
  "ev_get_content (Event a b c d) = b"

fun ev_is_tool_call :: "event \<Rightarrow> bool" where
  "ev_is_tool_call (Event a b c d) = c"

fun ev_iter_tool_calls :: "event \<Rightarrow> FunctionCallChunk list" where
  "ev_iter_tool_calls (Event a b c d) = d"

definition demo_parser :: "event StreamParser" where
  "demo_parser =
     \<lparr>is_content = ev_is_content, get_content = ev_get_content,
      is_tool_call = ev_is_tool_call, iter_tool_calls = ev_iter_tool_calls\<rparr>"

definition content :: "string \<Rightarrow> event" where
  "content s = Event True (Some s) False []"

definition tool_call :: "string option \<Rightarrow> string option \<Rightarrow> string option \<Rightarrow> event" where
  "tool_call i nm a = Event False None True [\<lparr>chunk_id = i, chunk_name = nm, chunk_args = a\<rparr>]"

definition usage :: event where
  "usage = Event False None False []"

definition all_digits :: "string \<Rightarrow> bool" where
  "all_digits s = (s \<noteq> [] \<and> list_all (\<lambda>c. c \<in> set ''0123456789'') s)"

text \<open>
  Three schemas with output the tool's name and its argument text: one that reads all
  fragments and accepts any text, one that reads all and expects a number, and one that
  reads a single fragment and leaves the rest to whoever iterates its output.
\<close>

definition any_schema :: "string \<Rightarrow> (string \<times> string, string) FunctionSchema" where
  "any_schema nm =
     \<lparr>schema_name = nm, wants_more = (\<lambda>acc. True), validate = (\<lambda>acc. Inr (nm, concat acc))\<rparr>"

definition num_schema :: "string \<Rightarrow> (string \<times> string, string) FunctionSchema" where
  "num_schema nm =
     \<lparr>schema_name = nm, wants_more = (\<lambda>acc. True),
      validate = (\<lambda>acc. if all_digits (concat acc) then Inr (nm, concat acc) else Inl (concat acc))\<rparr>"

definition lazy_schema :: "string \<Rightarrow> (string \<times> string, string) FunctionSchema" where
  "lazy_schema nm =
     \<lparr>schema_name = nm, wants_more = (\<lambda>acc. acc = []), validate = (\<lambda>acc. Inr (nm, concat acc))\<rparr>"

definition demo ::
  "(string \<times> string, string) FunctionSchema list \<Rightarrow> bool \<Rightarrow>
     (event, string \<times> string, string) OutputStream" where
  "demo schemas it =
     \<lparr>function_schemas = schemas, parser = demo_parser, output_iterable = (\<lambda>out. it),
      item_truthy = (\<lambda>e. True)\<rparr>"

text \<open>
  The same collaborators over events that are dictionaries, where the administrative
  event \<open>usage\<close> is the empty dictionary, which is false in Python.
\<close>

definition demo_dicts ::
  "(string \<times> string, string) FunctionSchema list \<Rightarrow> bool \<Rightarrow>
     (event, string \<times> string, string) OutputStream" where
  "demo_dicts schemas it = (demo schemas it)\<lparr>item_truthy := (\<lambda>e. e \<noteq> usage)\<rparr>"

text \<open>
  Two heaps of an engine inside a tool-call group. In the first the generator of call
  \<^verbatim>\<open>1\<close> is about to read: its first chunk, a chunk with an empty id and empty
  arguments, a chunk with no id, and the first chunk of call \<^verbatim>\<open>2\<close>. In the second the
  first chunk of call \<^verbatim>\<open>1\<close> has just been stored in \<^verbatim>\<open>tool_call_ref\<close>; a fragment of the
  call without id, the call \<^verbatim>\<open>2\<close> and a trailing event are still in the source.
\<close>

definition heap_mid_call :: "event heap" where
  "heap_mid_call =
     \<lparr>stream = [Fresh (tool_call (Some '''') None (Some '''')), Fresh (tool_call None None (Some ''b'')),
        Fresh (tool_call (Some ''2'') (Some ''g'') (Some ''c''))],
      tool_calls_stream = [\<lparr>chunk_id = Some ''1'', chunk_name = Some ''f'', chunk_args = Some ''a''\<rparr>],
      updated = [tool_call (Some ''1'') (Some ''f'') (Some ''a'')], exhausted = False,
      current_item_ref = [], tool_call_ref = []\<rparr>"

definition heap_first_call :: "event heap" where
  "heap_first_call =
     \<lparr>stream = [Fresh (tool_call None None (Some ''x'')),
        Fresh (tool_call (Some ''2'') (Some ''g'') (Some ''2'')), Fresh usage],
      tool_calls_stream = [],
      updated = [tool_call (Some ''1'') (Some ''f'') (Some ''1'')], exhausted = False,
      current_item_ref = [],
      tool_call_ref = [\<lparr>chunk_id = Some ''1'', chunk_name = Some ''f'', chunk_args = Some ''1''\<rparr>]\<rparr>"

text \<open>
  The heap of Scenario A of the spec when the first event has been popped from
  \<^verbatim>\<open>current_item_ref\<close>.
\<close>

definition heap_in_text :: "event heap" where
  "heap_in_text =
     \<lparr>stream = [Fresh (content ''world''), Fresh (tool_call (Some ''1'') (Some ''f'') (Some ''{x:'')),
        Fresh (tool_call (Some ''1'') None (Some ''1}''))],
      tool_calls_stream = [], updated = [content ''Hello ''], exhausted = False,
      current_item_ref = [], tool_call_ref = []\<rparr>"

text \<open>
  An event that the parser classifies both as content and as a tool call, and the heap
  of the engine when this event is the first of the source and a second event follows.
\<close>

definition both_event :: event where
  "both_event =
     Event True (Some ''a'') True
       [\<lparr>chunk_id = Some ''1'', chunk_name = Some ''f'', chunk_args = Some ''1''\<rparr>]"

definition heap_both :: "event heap" where
  "heap_both =
     \<lparr>stream = [Fresh usage], tool_calls_stream = [], updated = [both_event], exhausted = False,
      current_item_ref = [both_event], tool_call_ref = []\<rparr>"

section \<open>Errors of a call\<close>

text \<open>
  C5. A call whose first fragment carries an id and a name that the first-match lookup
  does not find makes the engine raise \<^verbatim>\<open>UnknownToolError\<close> with the snapshot of all
  events pulled so far, that id and that name. The pass yields nothing: the segments of
  the run are those yielded before, and the raise ends the run.
\<close>

theorem unknown_tool_error:
  assumes "tool_call_ref h = [chunk]"
    and "chunk_id chunk = Some i"
    and "chunk_name chunk = Some nm"
    and "select_function_schema (function_schemas E) nm = None"
  shows "tool_loop (Suc n) E c segs h =
           (segs, h\<lparr>tool_call_ref := []\<rparr>, Raised (UnknownToolError (updated h) i nm))"
  using assms by (simp add: tool_group_def)

text \<open>
  Scenario C of the spec: a tool-call fragment naming a tool that is not in the registry.
  The first equation is the theorem at the heap the engine has reached after the second
  event; the second is the whole run: no segment, and the error with the snapshot as of
  that point.
\<close>

theorem unknown_tool_error_witness:
  "tool_loop (Suc 0) (demo [num_schema ''f''] False) (\<lambda>i. 0) []
     \<lparr>stream = [Fresh usage], tool_calls_stream = [],
      updated = [usage, tool_call (Some ''1'') (Some ''zzz'') (Some ''1'')], exhausted = False,
      current_item_ref = [],
      tool_call_ref = [\<lparr>chunk_id = Some ''1'', chunk_name = Some ''zzz'', chunk_args = Some ''1''\<rparr>]\<rparr>
   = ([], \<lparr>stream = [Fresh usage], tool_calls_stream = [],
      updated = [usage, tool_call (Some ''1'') (Some ''zzz'') (Some ''1'')], exhausted = False,
      current_item_ref = [], tool_call_ref = []\<rparr>,
      Raised (UnknownToolError [usage, tool_call (Some ''1'') (Some ''zzz'') (Some ''1'')] ''1'' ''zzz''))
   \<and> OutputStream_stream 3 (demo [num_schema ''f''] False) (\<lambda>i. 0)
       [usage, tool_call (Some ''1'') (Some ''zzz'') (Some ''1''), usage]
     = ([], \<lparr>stream = [Fresh usage], tool_calls_stream = [],
      updated = [usage, tool_call (Some ''1'') (Some ''zzz'') (Some ''1'')], exhausted = False,
      current_item_ref = [], tool_call_ref = []\<rparr>,
      Raised (UnknownToolError [usage, tool_call (Some ''1'') (Some ''zzz'') (Some ''1'')] ''1'' ''zzz''))"
proof -
  let ?chunk = "\<lparr>chunk_id = Some ''1'', chunk_name = Some ''zzz'', chunk_args = Some ''1''\<rparr>"
  let ?h = "\<lparr>stream = [Fresh usage], tool_calls_stream = [],
      updated = [usage, tool_call (Some ''1'') (Some ''zzz'') (Some ''1'')], exhausted = False,
      current_item_ref = [], tool_call_ref = [?chunk]\<rparr>"
  let ?E = "demo [num_schema ''f''] False"
  have sel: "select_function_schema (function_schemas ?E) ''zzz'' = None"
    by (simp add: select_function_schema_def demo_def num_schema_def)
  have run: "OutputStream_stream 3 (demo [num_schema ''f''] False) (\<lambda>i. 0)
       [usage, tool_call (Some ''1'') (Some ''zzz'') (Some ''1''), usage]
     = ([], \<lparr>stream = [Fresh usage], tool_calls_stream = [],
      updated = [usage, tool_call (Some ''1'') (Some ''zzz'') (Some ''1'')], exhausted = False,
      current_item_ref = [], tool_call_ref = []\<rparr>,
      Raised (UnknownToolError [usage, tool_call (Some ''1'') (Some ''zzz'') (Some ''1'')] ''1'' ''zzz''))"
    by code_simp
  from unknown_tool_error [of ?h ?chunk "''1''" "''zzz''" ?E 0 "\<lambda>i. 0" "[]", OF _ _ _ sel] run
  show ?thesis by simp
qed

text \<open>
  C6. A call on a known tool whose argument text, as read by the schema, fails the
  schema's validation makes the engine raise \<^verbatim>\<open>ToolSchemaParseError\<close> with the snapshot
  of all events pulled when the parse failed, the call's id and the validation error.
  The pass yields nothing: the segments of the run are those yielded before, and the
  raise ends the run.
\<close>

theorem schema_parse_error:
  assumes "tool_call_ref h = [chunk]"
    and "chunk_id chunk = Some i"
    and "chunk_name chunk = Some nm"
    and "select_function_schema (function_schemas E) nm = Some S"
    and "read_args (parser E) S i [] Active (call_start chunk h) = (acc, ok, g, h2)"
    and "validate S acc = Inl e"
  shows "tool_loop (Suc n) E c segs h =
           (segs, h2, Raised (ToolSchemaParseError (updated h2) i e))"
proof -
  have "call_reads (parser E) i (call_start chunk h) [] Active (call_start chunk h)"
    by (rule call_reads_start) (simp add: call_start_def)
  from call_reads_read_args [OF assms(5) this] have ok by simp
  with assms show ?thesis by (simp add: tool_group_def call_start_def)
qed

text \<open>
  Scenario D of the spec: the argument text \<^verbatim>\<open>not-json\<close> for a schema that expects a
  number. The schema reads the whole stream, so the snapshot holds the trailing event.
\<close>

theorem schema_parse_error_witness:
  "OutputStream_stream 3 (demo [num_schema ''f''] False) (\<lambda>i. 0)
       [usage, tool_call (Some ''1'') (Some ''f'') (Some ''not-json''), usage]
     = ([], \<lparr>stream = [], tool_calls_stream = [],
      updated = [usage, tool_call (Some ''1'') (Some ''f'') (Some ''not-json''), usage],
      exhausted = True, current_item_ref = [], tool_call_ref = []\<rparr>,
      Raised (ToolSchemaParseError
         [usage, tool_call (Some ''1'') (Some ''f'') (Some ''not-json''), usage] ''1'' ''not-json''))
   \<and> tool_loop (Suc 0) (demo [num_schema ''f''] False) (\<lambda>i. 0) []
     \<lparr>stream = [Fresh usage], tool_calls_stream = [],
      updated = [usage, tool_call (Some ''1'') (Some ''f'') (Some ''not-json'')], exhausted = False,
      current_item_ref = [],
      tool_call_ref = [\<lparr>chunk_id = Some ''1'', chunk_name = Some ''f'', chunk_args = Some ''not-json''\<rparr>]\<rparr>
     = ([], \<lparr>stream = [], tool_calls_stream = [],
      updated = [usage, tool_call (Some ''1'') (Some ''f'') (Some ''not-json''), usage],
      exhausted = True, current_item_ref = [], tool_call_ref = []\<rparr>,
      Raised (ToolSchemaParseError
         [usage, tool_call (Some ''1'') (Some ''f'') (Some ''not-json''), usage] ''1'' ''not-json''))"
proof -
  let ?chunk = "\<lparr>chunk_id = Some ''1'', chunk_name = Some ''f'', chunk_args = Some ''not-json''\<rparr>"
  let ?h = "\<lparr>stream = [Fresh usage], tool_calls_stream = [],
      updated = [usage, tool_call (Some ''1'') (Some ''f'') (Some ''not-json'')], exhausted = False,
      current_item_ref = [], tool_call_ref = [?chunk]\<rparr>"
  let ?h2 = "\<lparr>stream = [], tool_calls_stream = [],
      updated = [usage, tool_call (Some ''1'') (Some ''f'') (Some ''not-json''), usage],
      exhausted = True, current_item_ref = [], tool_call_ref = []\<rparr>"
  let ?E = "demo [num_schema ''f''] False"
  have sel: "select_function_schema (function_schemas ?E) ''f'' = Some (num_schema ''f'')"
    by (simp add: select_function_schema_def demo_def num_schema_def)
  have ra: "read_args (parser ?E) (num_schema ''f'') ''1'' [] Active (call_start ?chunk ?h)
      = ([''not-json''], True, Done, ?h2)"
    by code_simp
  have val: "validate (num_schema ''f'') [''not-json''] = Inl ''not-json''"
    by code_simp
  have run: "OutputStream_stream 3 (demo [num_schema ''f''] False) (\<lambda>i. 0)
       [usage, tool_call (Some ''1'') (Some ''f'') (Some ''not-json''), usage]
     = ([], ?h2, Raised (ToolSchemaParseError
         [usage, tool_call (Some ''1'') (Some ''f'') (Some ''not-json''), usage] ''1'' ''not-json''))"
    by code_simp
  from schema_parse_error [of ?h ?chunk "''1''" "''f''" ?E "num_schema ''f''" "[''not-json'']"
      True Done ?h2 "''not-json''" 0 "\<lambda>i. 0" "[]", OF _ _ _ sel ra val] run
  show ?thesis by simp
qed

section \<open>The fragments of a call\<close>

text \<open>
  C8. The strings \<^verbatim>\<open>parse_args\<close> receives from the generator of a call are, in order, a
  prefix of the non-empty \<^verbatim>\<open>args\<close> of the chunks that stand before the first chunk of
  another call, in the order of the flattened chunk stream; none of them is empty.
\<close>

theorem argument_stream_invariant:
  assumes "read_args P S i [] Active h = (acc, ok, g, h')" and "tool_call_ref h = []"
  shows "prefix acc (call_args i (chunks_ahead P h)) \<and> list_all (\<lambda>a. a \<noteq> []) acc"
proof -
  from assms(2) have "call_reads P i h [] Active h" by (rule call_reads_start)
  from call_reads_read_args [OF assms(1) this] have cr: "call_reads P i h acc g h'" by simp
  then show ?thesis by (cases g) (auto simp: call_reads_def)
qed

text \<open>
  A schema that stops after one fragment, on a call whose chunks carry \<^verbatim>\<open>a\<close>, the
  empty string and \<^verbatim>\<open>b\<close>: it receives \<^verbatim>\<open>a\<close>, a prefix of the call's \<^verbatim>\<open>a\<close>, \<^verbatim>\<open>b\<close>.
\<close>

theorem argument_stream_invariant_witness:
  "fst (read_args demo_parser (lazy_schema ''f'') ''1'' [] Active heap_mid_call) = [''a''] \<and>
   call_args ''1'' (chunks_ahead demo_parser heap_mid_call) = [''a'', ''b''] \<and>
   prefix (fst (read_args demo_parser (lazy_schema ''f'') ''1'' [] Active heap_mid_call))
     (call_args ''1'' (chunks_ahead demo_parser heap_mid_call)) \<and>
   list_all (\<lambda>a. a \<noteq> [])
     (fst (read_args demo_parser (lazy_schema ''f'') ''1'' [] Active heap_mid_call))"
proof -
  obtain acc ok g h' where
    ra: "read_args demo_parser (lazy_schema ''f'') ''1'' [] Active heap_mid_call = (acc, ok, g, h')"
    by (cases "read_args demo_parser (lazy_schema ''f'') ''1'' [] Active heap_mid_call")
  have ref: "tool_call_ref heap_mid_call = []" by (simp add: heap_mid_call_def)
  have e1: "fst (read_args demo_parser (lazy_schema ''f'') ''1'' [] Active heap_mid_call) = [''a'']"
    by code_simp
  have e2: "call_args ''1'' (chunks_ahead demo_parser heap_mid_call) = [''a'', ''b'']"
    by code_simp
  from argument_stream_invariant [OF ra ref] ra e1 e2 show ?thesis by simp
qed

text \<open>
  C7, as stated, fails: a fragment whose id is the empty string bears a non-null id
  different from the active id \<^verbatim>\<open>1\<close>, yet \<^verbatim>\<open>if item.id and ...\<close> routes its arguments to
  the active call and the generator goes on.
\<close>

theorem tool_call_boundary_counterexample:
  "chunk_id \<lparr>chunk_id = Some '''', chunk_name = None, chunk_args = Some ''x''\<rparr> \<noteq> None \<and>
   chunk_id \<lparr>chunk_id = Some '''', chunk_name = None, chunk_args = Some ''x''\<rparr> \<noteq> Some ''1'' \<and>
   tool_call_next demo_parser ''1'' Active
     \<lparr>stream = [Fresh usage],
      tool_calls_stream = [\<lparr>chunk_id = Some '''', chunk_name = None, chunk_args = Some ''x''\<rparr>],
      updated = [], exhausted = False, current_item_ref = [], tool_call_ref = []\<rparr>
   = (Yielded ''x'', Active,
      \<lparr>stream = [Fresh usage], tool_calls_stream = [], updated = [], exhausted = False,
       current_item_ref = [], tool_call_ref = []\<rparr>)"
  by code_simp

text \<open>
  C7, amended. Read to its end by the schema, the generator of the call with id \<open>i\<close>
  delivers the arguments of all chunks before the first chunk whose id is neither null,
  nor empty, nor \<open>i\<close>; exactly that chunk ends the generator and is stored in
  \<^verbatim>\<open>tool_call_ref\<close>, the lookahead of the next pass, with the chunks after it still to be
  delivered. With no such chunk the generator exhausts the stream.
\<close>

theorem tool_call_boundary:
  assumes "read_args P S i [] Active h = (acc, ok, g, h')"
    and "tool_call_ref h = []"
    and "\<forall>xs. wants_more S xs"
  shows "acc = call_args i (chunks_ahead P h) \<and>
         (case dropWhile (\<lambda>c. \<not> new_call i c) (chunks_ahead P h) of
            [] \<Rightarrow> tool_call_ref h' = [] \<and> exhausted h'
          | b # rest \<Rightarrow> tool_call_ref h' = [b] \<and> chunks_ahead P h' = rest)"
proof -
  from assms(2) have "call_reads P i h [] Active h" by (rule call_reads_start)
  from call_reads_read_args [OF assms(1) this] have ok: ok and cr: "call_reads P i h acc g h'"
    by simp_all
  from assms(1) ok assms(3) have "g = Done" by (auto dest: read_args_greedy)
  with cr have cr': "call_reads P i h acc Done h'" by simp
  show ?thesis
  proof (cases "dropWhile (\<lambda>c. \<not> new_call i c) (chunks_ahead P h)")
    case Nil
    with cr' show ?thesis by (simp add: call_reads_def del: dropWhile_eq_Nil_conv)
  next
    case (Cons b rest)
    with cr' show ?thesis by (simp add: call_reads_def)
  qed
qed

text \<open>
  The chunk with the empty id and the chunk with no id are routed to call \<^verbatim>\<open>1\<close>; the
  first chunk of call \<^verbatim>\<open>2\<close> becomes the lookahead.
\<close>

theorem tool_call_boundary_witness:
  "fst (read_args demo_parser (any_schema ''f'') ''1'' [] Active heap_mid_call) = [''a'', ''b''] \<and>
   dropWhile (\<lambda>c. \<not> new_call ''1'' c) (chunks_ahead demo_parser heap_mid_call) =
     [\<lparr>chunk_id = Some ''2'', chunk_name = Some ''g'', chunk_args = Some ''c''\<rparr>] \<and>
   tool_call_ref (snd (snd (snd (read_args demo_parser (any_schema ''f'') ''1'' [] Active heap_mid_call)))) =
     [\<lparr>chunk_id = Some ''2'', chunk_name = Some ''g'', chunk_args = Some ''c''\<rparr>] \<and>
   chunks_ahead demo_parser
     (snd (snd (snd (read_args demo_parser (any_schema ''f'') ''1'' [] Active heap_mid_call)))) = []"
proof -
  obtain acc ok g h' where
    ra: "read_args demo_parser (any_schema ''f'') ''1'' [] Active heap_mid_call = (acc, ok, g, h')"
    by (cases "read_args demo_parser (any_schema ''f'') ''1'' [] Active heap_mid_call")
  have ref: "tool_call_ref heap_mid_call = []" by (simp add: heap_mid_call_def)
  have wm: "\<forall>xs. wants_more (any_schema ''f'') xs" by (simp add: any_schema_def)
  have e1: "call_args ''1'' (chunks_ahead demo_parser heap_mid_call) = [''a'', ''b'']"
    by code_simp
  have e2: "dropWhile (\<lambda>c. \<not> new_call ''1'' c) (chunks_ahead demo_parser heap_mid_call) =
     [\<lparr>chunk_id = Some ''2'', chunk_name = Some ''g'', chunk_args = Some ''c''\<rparr>]"
    by code_simp
  from tool_call_boundary [OF ra ref wm] ra e1 e2 show ?thesis by simp
qed

section \<open>Abandoned segments\<close>

text \<open>
  C3. When the Text Segment of the event \<open>x\<close> has been yielded, then whatever number
  \<open>k\<close> of fragments the consumer pulled before it asked for the next segment, the engine
  raises nothing and continues on the heap that consuming the segment's generator from
  its start leaves: the fragments pulled by the consumer and then by the engine are all
  the fragments of the segment; the first tool-call event at or after \<open>x\<close> is in
  \<^verbatim>\<open>current_item_ref\<close> and the events after it are still in the stream, or the source is
  exhausted; no event is lost between the log of updated events and the stream.
\<close>

theorem text_abandonment_safety:
  assumes "text_group P k x h = (out, err, h')"
    and "current_item_ref h = []"
    and "\<not> exhausted h"
  shows "err = None \<and>
         (\<exists>taken drained. out = [Text taken drained] \<and>
            taken @ drained = text_frags P (x # map item_of (stream h)) \<and>
            streamed_str_consume P (Running None) (h\<lparr>stream := Chained x # stream h\<rparr>) =
              (taken @ drained, True, Finished, h')) \<and>
         updated h' @ fresh (stream h') = updated h @ fresh (stream h) \<and>
         (case dropWhile (\<lambda>c. \<not> is_tool_call P (item_of c)) (Chained x # stream h) of
            [] \<Rightarrow> current_item_ref h' = [] \<and> exhausted h' \<and> stream h' = []
          | b # rest \<Rightarrow> current_item_ref h' = [item_of b] \<and> \<not> exhausted h' \<and> stream h' = rest)"
  using assms by (rule text_group_post)

text \<open>
  Scenario A of the spec with a consumer that reads nothing: the engine drains
  \<^verbatim>\<open>Hello\<close> and \<^verbatim>\<open>world\<close>, the first tool-call event becomes the lookahead, and the
  Structured Segment is parsed from both argument fragments.
\<close>

theorem text_abandonment_safety_witness:
  "text_group demo_parser 0 (content ''Hello '') heap_in_text =
     ([Text [] [''Hello '', ''world''] :: (string \<times> string) segment], (None :: (event, string) error option),
      \<lparr>stream = [Fresh (tool_call (Some ''1'') None (Some ''1}''))],
       tool_calls_stream = [],
       updated = [content ''Hello '', content ''world'', tool_call (Some ''1'') (Some ''f'') (Some ''{x:'')],
       exhausted = False,
       current_item_ref = [tool_call (Some ''1'') (Some ''f'') (Some ''{x:'')], tool_call_ref = []\<rparr>) \<and>
   text_frags demo_parser (content ''Hello '' # map item_of (stream heap_in_text)) = [''Hello '', ''world''] \<and>
   dropWhile (\<lambda>c. \<not> is_tool_call demo_parser (item_of c)) (Chained (content ''Hello '') # stream heap_in_text) =
     [Fresh (tool_call (Some ''1'') (Some ''f'') (Some ''{x:'')), Fresh (tool_call (Some ''1'') None (Some ''1}''))] \<and>
   OutputStream_stream 5 (demo [any_schema ''f''] False) (\<lambda>i. 0)
     [content ''Hello '', content ''world'', tool_call (Some ''1'') (Some ''f'') (Some ''{x:''),
      tool_call (Some ''1'') None (Some ''1}'')] =
     ([Text [] [''Hello '', ''world''], Structured (''f'', ''{x:1}'')],
      \<lparr>stream = [], tool_calls_stream = [],
       updated = [content ''Hello '', content ''world'', tool_call (Some ''1'') (Some ''f'') (Some ''{x:''),
         tool_call (Some ''1'') None (Some ''1}'')],
       exhausted = True, current_item_ref = [], tool_call_ref = []\<rparr>, Completed)"
proof -
  let ?h' = "\<lparr>stream = [Fresh (tool_call (Some ''1'') None (Some ''1}''))],
       tool_calls_stream = [],
       updated = [content ''Hello '', content ''world'', tool_call (Some ''1'') (Some ''f'') (Some ''{x:'')],
       exhausted = False,
       current_item_ref = [tool_call (Some ''1'') (Some ''f'') (Some ''{x:'')], tool_call_ref = []\<rparr>"
  have tg: "text_group demo_parser 0 (content ''Hello '') heap_in_text =
     ([Text [] [''Hello '', ''world''] :: (string \<times> string) segment],
      (None :: (event, string) error option), ?h')"
    by code_simp
  have ref: "current_item_ref heap_in_text = []" and nex: "\<not> exhausted heap_in_text"
    by (simp_all add: heap_in_text_def)
  have e1: "text_frags demo_parser (content ''Hello '' # map item_of (stream heap_in_text)) = [''Hello '', ''world'']"
    by code_simp
  have e2: "dropWhile (\<lambda>c. \<not> is_tool_call demo_parser (item_of c)) (Chained (content ''Hello '') # stream heap_in_text) =
     [Fresh (tool_call (Some ''1'') (Some ''f'') (Some ''{x:'')), Fresh (tool_call (Some ''1'') None (Some ''1}''))]"
    by code_simp
  have run: "OutputStream_stream 5 (demo [any_schema ''f''] False) (\<lambda>i. 0)
     [content ''Hello '', content ''world'', tool_call (Some ''1'') (Some ''f'') (Some ''{x:''),
      tool_call (Some ''1'') None (Some ''1}'')] =
     ([Text [] [''Hello '', ''world''], Structured (''f'', ''{x:1}'')],
      \<lparr>stream = [], tool_calls_stream = [],
       updated = [content ''Hello '', content ''world'', tool_call (Some ''1'') (Some ''f'') (Some ''{x:''),
         tool_call (Some ''1'') None (Some ''1}'')],
       exhausted = True, current_item_ref = [], tool_call_ref = []\<rparr>, Completed)"
    by code_simp
  from text_abandonment_safety [OF tg ref nex] tg e1 e2 run show ?thesis by simp
qed

text \<open>
  C4. A pass of the inner loop on a known tool whose arguments validate, and whose
  schema has read the call's generator to its end or has given an iterable output,
  yields that output and raises nothing, and it leaves the heap that consuming the call's
  generator to its end leaves, however many fragments the schema's parse read and
  however many the consumer pulled from the output: the first chunk of the next call is
  in \<^verbatim>\<open>tool_call_ref\<close> with the chunks after it still ahead, or the stream is exhausted;
  and no event is lost between the log of updated events and the stream.
\<close>

theorem structured_abandonment_safety:
  assumes ref: "tool_call_ref h = [chunk]"
    and nex: "\<not> exhausted h"
    and cid: "chunk_id chunk = Some i"
    and cnm: "chunk_name chunk = Some nm"
    and sel: "select_function_schema (function_schemas E) nm = Some S"
    and ra: "read_args (parser E) S i [] Active (call_start chunk h) = (acc, ok, g, h2)"
    and val: "validate S acc = Inr outp"
    and it: "g = Done \<or> output_iterable E outp"
  shows "\<exists>h'. tool_group E k h = ([Structured outp], None, h') \<and>
           tool_call_consume (parser E) i Active (call_start chunk h) = (True, Done, h') \<and>
           updated h' @ fresh (stream h') = updated h @ fresh (stream h) \<and>
           (case dropWhile (\<lambda>c. \<not> new_call i c) (chunks_ahead (parser E) (call_start chunk h)) of
              [] \<Rightarrow> tool_call_ref h' = [] \<and> exhausted h' \<and> stream h' = [] \<and>
                tool_calls_stream h' = []
            | b # rest \<Rightarrow> tool_call_ref h' = [b] \<and> chunks_ahead (parser E) h' = rest)"
proof -
  let ?P = "parser E"
  let ?hs = "call_start chunk h"
  let ?k = "if output_iterable E outp then k else 0"
  obtain out err h' where tg: "tool_group E k h = (out, err, h')"
    by (cases "tool_group E k h")
  have cr0: "call_reads ?P i ?hs [] Active ?hs"
    by (rule call_reads_start) (simp add: call_start_def)
  from call_reads_read_args [OF ra cr0] have ok: ok and cr2: "call_reads ?P i ?hs acc g h2"
    by simp_all
  obtain ok' g3 h3 where pl: "tool_call_pulls ?k ?P i g h2 = (ok', g3, h3)"
    by (cases "tool_call_pulls ?k ?P i g h2")
  from call_reads_pulls [OF pl cr2] obtain zs where
    ok': ok' and cr3: "call_reads ?P i ?hs (acc @ zs) g3 h3" by auto
  have res: "out = [Structured outp] \<and> err = None"
  proof (cases "tool_call_ref h3 = [] \<and> \<not> exhausted h3")
    case False
    with tg ref cid cnm sel ra ok val pl ok' show ?thesis
      by (auto simp: tool_group_def call_start_def)
  next
    case True
    have "g3 \<noteq> Done"
    proof
      assume d: "g3 = Done"
      show False
      proof (cases "dropWhile (\<lambda>c. \<not> new_call i c) (chunks_ahead ?P ?hs)")
        case Nil
        with cr3 d True show False by (simp add: call_reads_def del: dropWhile_eq_Nil_conv)
      next
        case (Cons b rest)
        with cr3 d True show False by (simp add: call_reads_def)
      qed
    qed
    with pl have "g \<noteq> Done" by (auto simp: tool_call_pulls_Done)
    with it have oi: "output_iterable E outp" by simp
    obtain ok'' g4 h4 where cs: "tool_call_consume ?P i g3 h3 = (ok'', g4, h4)"
      by (cases "tool_call_consume ?P i g3 h3")
    from call_reads_consume [OF cs cr3] have ok'': ok'' by simp
    from tg ref cid cnm sel ra ok val pl ok' True oi cs ok'' show ?thesis
      by (auto simp: tool_group_def call_start_def)
  qed
  from tool_group_result [OF tg ref nex] res cid
  obtain ys where cr: "call_reads ?P i ?hs ys Done h'"
    and co: "tool_call_consume ?P i Active ?hs = (True, Done, h')"
    and up: "updated h' @ fresh (stream h') = updated h @ fresh (stream h)"
    by auto
  show ?thesis
  proof (cases "dropWhile (\<lambda>c. \<not> new_call i c) (chunks_ahead ?P ?hs)")
    case Nil
    with cr co up tg res show ?thesis
      by (simp add: call_reads_def del: dropWhile_eq_Nil_conv)
  next
    case (Cons b rest)
    with cr co up tg res show ?thesis by (simp add: call_reads_def)
  qed
qed

text \<open>
  Scenario B of the spec, with a fragment of the first call that its schema does not
  read and a trailing event: the schema of \<^verbatim>\<open>f\<close> reads one fragment, the consumer reads
  nothing, and \<^verbatim>\<open>g\<close> is still parsed from its own arguments; the run completes.
\<close>

theorem structured_abandonment_safety_witness:
  "fst (tool_group (demo [lazy_schema ''f'', num_schema ''g''] True) 0 heap_first_call) =
     [Structured (''f'', ''1'')] \<and>
   tool_call_ref (snd (snd (tool_group (demo [lazy_schema ''f'', num_schema ''g''] True) 0 heap_first_call))) =
     [\<lparr>chunk_id = Some ''2'', chunk_name = Some ''g'', chunk_args = Some ''2''\<rparr>] \<and>
   fst (OutputStream_stream 4 (demo [lazy_schema ''f'', num_schema ''g''] True) (\<lambda>i. 0)
     [tool_call (Some ''1'') (Some ''f'') (Some ''1''), tool_call None None (Some ''x''),
      tool_call (Some ''2'') (Some ''g'') (Some ''2''), usage]) =
     [Structured (''f'', ''1''), Structured (''g'', ''2'')] \<and>
   snd (snd (OutputStream_stream 4 (demo [lazy_schema ''f'', num_schema ''g''] True) (\<lambda>i. 0)
     [tool_call (Some ''1'') (Some ''f'') (Some ''1''), tool_call None None (Some ''x''),
      tool_call (Some ''2'') (Some ''g'') (Some ''2''), usage])) = Completed"
proof -
  let ?E = "demo [lazy_schema ''f'', num_schema ''g''] True"
  let ?c = "\<lparr>chunk_id = Some ''1'', chunk_name = Some ''f'', chunk_args = Some ''1''\<rparr>"
  obtain acc ok g h2 where
    ra: "read_args (parser ?E) (lazy_schema ''f'') ''1'' [] Active (call_start ?c heap_first_call) = (acc, ok, g, h2)"
    by (cases "read_args (parser ?E) (lazy_schema ''f'') ''1'' [] Active (call_start ?c heap_first_call)")
  have "fst (read_args (parser ?E) (lazy_schema ''f'') ''1'' [] Active (call_start ?c heap_first_call)) = [''1'']"
    by code_simp
  with ra have acc: "acc = [''1'']" by simp
  have ref: "tool_call_ref heap_first_call = [?c]" and nex: "\<not> exhausted heap_first_call"
    by (simp_all add: heap_first_call_def)
  have sel: "select_function_schema (function_schemas ?E) ''f'' = Some (lazy_schema ''f'')"
    by (simp add: select_function_schema_def demo_def lazy_schema_def)
  have val: "validate (lazy_schema ''f'') acc = Inr (''f'', ''1'')"
    by (simp add: acc lazy_schema_def)
  have it: "output_iterable ?E (''f'', ''1'')" by (simp add: demo_def)
  have dw: "dropWhile (\<lambda>c. \<not> new_call ''1'' c) (chunks_ahead (parser ?E) (call_start ?c heap_first_call)) =
     [\<lparr>chunk_id = Some ''2'', chunk_name = Some ''g'', chunk_args = Some ''2''\<rparr>]"
    by code_simp
  have run: "fst (OutputStream_stream 4 ?E (\<lambda>i. 0)
     [tool_call (Some ''1'') (Some ''f'') (Some ''1''), tool_call None None (Some ''x''),
      tool_call (Some ''2'') (Some ''g'') (Some ''2''), usage]) =
     [Structured (''f'', ''1''), Structured (''g'', ''2'')]"
    "snd (snd (OutputStream_stream 4 ?E (\<lambda>i. 0)
     [tool_call (Some ''1'') (Some ''f'') (Some ''1''), tool_call None None (Some ''x''),
      tool_call (Some ''2'') (Some ''g'') (Some ''2''), usage])) = Completed"
    by code_simp+
  from structured_abandonment_safety [of heap_first_call ?c "''1''" "''f''" ?E "lazy_schema ''f''"
      acc ok g h2 "(''f'', ''1'')" 0, OF ref nex _ _ sel ra val disjI2 [OF it]] dw run
  show ?thesis by auto
qed

section \<open>Whole runs\<close>

text \<open>
  C2, as stated, fails on a source with an event that is false in Python. The last
  branch of the outer loop, \<^verbatim>\<open>elif new_current_item := next(stream, None)\<close> (line 183),
  tests the truth value of the event it pulled, so a false event ends the run like an
  exhausted source does. Here the events are dictionaries and the administrative event
  is the empty one: the first event is pulled without a test, the second ends the run,
  which completes after two updates, and the third event is never pulled.
\<close>

theorem exactly_once_consumption_counterexample:
  "\<not> item_truthy (demo_dicts [any_schema ''f''] False) usage \<and>
   OutputStream_stream 5 (demo_dicts [any_schema ''f''] False) (\<lambda>i. 1)
     [usage, usage, content ''a''] =
     ([],
      \<lparr>stream = [Fresh (content ''a'')], tool_calls_stream = [],
       updated = [usage, usage],
       exhausted = False, current_item_ref = [], tool_call_ref = []\<rparr>, Completed)"
  by code_simp

text \<open>
  C2, amended. An event is passed to \<^verbatim>\<open>State.update\<close> when it is pulled from the source
  and at no other place (\<open>next_item\<close>), so before the engine routes it anywhere. For every
  source, every consumer and every way the run ends, the events updated so far followed
  by the events still in the source are the source: each event pulled was updated once,
  in source order. When every event of the source is true in Python and the run
  completes, whatever the consumer pulled from the segments, the updated events are
  exactly the source.
\<close>

theorem exactly_once_consumption:
  fixes E :: "('item, 'o, 'e) OutputStream"
  assumes "OutputStream_stream n E c src = (segs, h, out)"
  shows "updated h @ fresh (stream h) = src \<and>
         ((\<forall>x\<in>set src. item_truthy E x) \<longrightarrow> out = Completed \<longrightarrow> updated h = src)"
  using assms by (rule OutputStream_stream_log)

text \<open>
  Scenario A of the spec followed by a trailing event, with a consumer that pulls one
  fragment per segment: all five events are updated, in order.
\<close>

theorem exactly_once_consumption_witness:
  "OutputStream_stream 5 (demo [any_schema ''f''] False) (\<lambda>i. 1)
     [content ''Hello '', content ''world'', tool_call (Some ''1'') (Some ''f'') (Some ''{x:''),
      tool_call (Some ''1'') None (Some ''1}''), usage] =
     ([Text [''Hello ''] [''world''], Structured (''f'', ''{x:1}'')],
      \<lparr>stream = [], tool_calls_stream = [],
       updated = [content ''Hello '', content ''world'', tool_call (Some ''1'') (Some ''f'') (Some ''{x:''),
         tool_call (Some ''1'') None (Some ''1}''), usage],
       exhausted = True, current_item_ref = [], tool_call_ref = []\<rparr>, Completed) \<and>
   updated (fst (snd (OutputStream_stream 5 (demo [any_schema ''f''] False) (\<lambda>i. 1)
     [content ''Hello '', content ''world'', tool_call (Some ''1'') (Some ''f'') (Some ''{x:''),
      tool_call (Some ''1'') None (Some ''1}''), usage]))) =
     [content ''Hello '', content ''world'', tool_call (Some ''1'') (Some ''f'') (Some ''{x:''),
      tool_call (Some ''1'') None (Some ''1}''), usage]"
proof -
  let ?src = "[content ''Hello '', content ''world'',
      tool_call (Some ''1'') (Some ''f'') (Some ''{x:''),
      tool_call (Some ''1'') None (Some ''1}''), usage]"
  let ?E = "demo [any_schema ''f''] False"
  have run: "OutputStream_stream 5 ?E (\<lambda>i. 1) ?src =
     ([Text [''Hello ''] [''world''], Structured (''f'', ''{x:1}'')],
      \<lparr>stream = [], tool_calls_stream = [],
       updated = ?src,
       exhausted = True, current_item_ref = [], tool_call_ref = []\<rparr>, Completed)"
    by code_simp
  have tr: "\<forall>x\<in>set ?src. item_truthy ?E x" by (simp add: demo_def)
  from exactly_once_consumption [OF run] tr run show ?thesis by simp
qed

text \<open>
  C1, as stated, fails: a content event after a tool-call event yields no Text Segment.
  The chunk stream of the tool-call branch reads every later event of the source, and the
  generator of a call ends only at the first chunk of another call (the comment at lines
  112 and 113), so the content is updated and dropped.
\<close>

theorem order_preservation_counterexample:
  "is_content demo_parser (content ''hi'') \<and>
   OutputStream_stream 5 (demo [any_schema ''f''] False) (\<lambda>i. 1)
     [tool_call (Some ''1'') (Some ''f'') (Some ''1''), content ''hi''] =
     ([Structured (''f'', ''1'')],
      \<lparr>stream = [], tool_calls_stream = [],
       updated = [tool_call (Some ''1'') (Some ''f'') (Some ''1''), content ''hi''],
       exhausted = True, current_item_ref = [], tool_call_ref = []\<rparr>, Completed)"
  by code_simp

text \<open>
  C1, amended. Let no event of the source be classified both as content and as a tool
  call. Then a run that ends, completed or with an error, has yielded exactly the
  segments of the source (\<open>segments_from\<close>), in that order and each once, whatever the
  consumer pulled; a Text Segment counts with the fragments the consumer pulled followed
  by those the engine drained. That is: the engine passes over the leading events that
  are neither content nor a tool call, and the run yields nothing if the event that
  follows one of them is false in Python. If the first classified event is content, the
  run yields one
  Text Segment, whose fragments are, in source order, the non-empty contents of the
  events from that one up to and including the first tool-call event, or up to the end of
  the source; then the Structured Segments of the calls found in the chunks of that
  tool-call event and of every later event. If the first classified event is a tool
  call, the run yields the Structured Segments of the calls found in the chunks of that
  event and of every later event. A call runs from a chunk up to the next chunk with a
  non-empty id other than its own; its segment holds the value the schema validated from
  the argument fragments it read; the segments stop before the first call with no id, no
  name, an unknown name or rejected arguments, and after the first call whose fragments
  the schema did not read to the end and whose value is not iterable. No Text Segment
  follows a Structured Segment. A run with at least as much fuel as the source has
  events and chunks ends.
\<close>

theorem order_preservation:
  fixes E :: "('item, 'o, 'e) OutputStream"
  assumes "\<forall>x\<in>set src. \<not> (is_content (parser E) x \<and> is_tool_call (parser E) x)"
    and "OutputStream_stream n E c src = (segs, h, out)"
  shows "(out \<noteq> OutOfFuel \<longrightarrow> map merge segs = segments_from E src) \<and>
         (length src + length (concat (map (iter_tool_calls (parser E)) src)) \<le> n \<longrightarrow>
            out \<noteq> OutOfFuel)"
proof -
  from run_ends [OF assms(1), of n c] assms(2)
  have "length src + length (concat (map (iter_tool_calls (parser E)) src)) \<le> n \<longrightarrow>
      out \<noteq> OutOfFuel"
    by simp
  with OutputStream_stream_segments [OF assms] show ?thesis by blast
qed

text \<open>
  Scenario A of the spec followed by a trailing event, with a consumer that pulls one
  fragment per segment: one Text Segment with both contents, then the Structured Segment
  of the call.
\<close>

theorem order_preservation_witness:
  "OutputStream_stream 7 (demo [any_schema ''f''] False) (\<lambda>i. 1)
     [content ''Hello '', content ''world'', tool_call (Some ''1'') (Some ''f'') (Some ''{x:''),
      tool_call (Some ''1'') None (Some ''1}''), usage] =
     ([Text [''Hello ''] [''world''], Structured (''f'', ''{x:1}'')],
      \<lparr>stream = [], tool_calls_stream = [],
       updated = [content ''Hello '', content ''world'', tool_call (Some ''1'') (Some ''f'') (Some ''{x:''),
         tool_call (Some ''1'') None (Some ''1}''), usage],
       exhausted = True, current_item_ref = [], tool_call_ref = []\<rparr>, Completed) \<and>
   segments_from (demo [any_schema ''f''] False)
     [content ''Hello '', content ''world'', tool_call (Some ''1'') (Some ''f'') (Some ''{x:''),
      tool_call (Some ''1'') None (Some ''1}''), usage] =
     [Text [''Hello '', ''world''] [], Structured (''f'', ''{x:1}'')]"
proof -
  let ?src = "[content ''Hello '', content ''world'',
      tool_call (Some ''1'') (Some ''f'') (Some ''{x:''),
      tool_call (Some ''1'') None (Some ''1}''), usage]"
  let ?E = "demo [any_schema ''f''] False"
  have run: "OutputStream_stream 7 ?E (\<lambda>i. 1) ?src =
     ([Text [''Hello ''] [''world''], Structured (''f'', ''{x:1}'')],
      \<lparr>stream = [], tool_calls_stream = [],
       updated = ?src,
       exhausted = True, current_item_ref = [], tool_call_ref = []\<rparr>, Completed)"
    by code_simp
  have nd: "\<forall>x\<in>set ?src. \<not> (is_content (parser ?E) x \<and> is_tool_call (parser ?E) x)"
    by (simp add: demo_def demo_parser_def content_def tool_call_def usage_def)
  from order_preservation [OF nd run] run show ?thesis by simp
qed

section \<open>An event that is both content and a tool call\<close>

text \<open>
  From the heap with such an event in the lookahead slot, one pass of the outer loop
  yields a Text Segment with the event's content and comes back to the same heap: line
  129 tests \<^verbatim>\<open>is_content\<close> before \<^verbatim>\<open>is_tool_call\<close>.
\<close>

lemma stream_loop_both:
  "stream_loop n (demo [any_schema ''f''] False) (\<lambda>i. 1) segs heap_both =
     (segs @ replicate n (Text [''a''] []), heap_both, OutOfFuel)"
proof (induction n arbitrary: segs)
  case 0
  show ?case by (simp add: heap_both_def)
next
  case (Suc n)
  have step: "text_group demo_parser 1 both_event (heap_both\<lparr>current_item_ref := []\<rparr>) =
      ([Text [''a''] [] :: (string \<times> string) segment], (None :: (event, string) error option), heap_both)"
    by code_simp
  have ref: "current_item_ref heap_both = [both_event]" by (simp add: heap_both_def)
  have ic: "is_content (parser (demo [any_schema ''f''] False)) both_event"
    by (simp add: demo_def demo_parser_def both_event_def)
  have P: "parser (demo [any_schema ''f''] False) = demo_parser" by (simp add: demo_def)
  have "stream_loop (Suc n) (demo [any_schema ''f''] False) (\<lambda>i. 1) segs heap_both =
      stream_loop n (demo [any_schema ''f''] False) (\<lambda>i. 1) (segs @ [Text [''a''] []]) heap_both"
    using ref ic step by (simp add: P)
  with Suc.IH [of "segs @ [Text [''a''] []]"] show ?case
    by (simp add: replicate_app_Cons_same)
qed

text \<open>
  C10, evaluated on the source of that event and a trailing event, for a consumer that
  pulls one fragment per segment. The generator \<^verbatim>\<open>_streamed_str\<close> yields the content
  \<^verbatim>\<open>a\<close> as the last fragment of the Text Segment and stores the event in
  \<^verbatim>\<open>current_item_ref\<close>, as the claim says; but the stored event does not start a
  tool-call grouping: the engine opens one more Text Segment on it at every request.
  With fuel for \<open>n\<close> passes the run yields \<open>n\<close> Text Segments and has not ended; no
  Structured Segment is yielded and the trailing event is never pulled.
\<close>

theorem boundary_event_reclassified:
  "is_content demo_parser both_event \<and> is_tool_call demo_parser both_event \<and>
   get_content demo_parser both_event = Some ''a'' \<and>
   OutputStream_stream n (demo [any_schema ''f''] False) (\<lambda>i. 1) [both_event, usage] =
     (replicate n (Text [''a''] []), heap_both, OutOfFuel)"
proof -
  have "OutputStream_stream n (demo [any_schema ''f''] False) (\<lambda>i. 1) [both_event, usage] =
      stream_loop n (demo [any_schema ''f''] False) (\<lambda>i. 1) [] heap_both"
    by (simp add: OutputStream_stream_def initial_heap_def next_item_def heap_both_def)
  also have "\<dots> = (replicate n (Text [''a''] []), heap_both, OutOfFuel)"
    using stream_loop_both [of n "[]"] by simp
  finally have run: "OutputStream_stream n (demo [any_schema ''f''] False) (\<lambda>i. 1)
      [both_event, usage] = (replicate n (Text [''a''] []), heap_both, OutOfFuel)" .
  have cls: "is_content demo_parser both_event" "is_tool_call demo_parser both_event"
    "get_content demo_parser both_event = Some ''a''"
    by (simp_all add: demo_parser_def both_event_def)
  from run cls show ?thesis by simp
qed

section \<open>The two engines\<close>

text \<open>
  C9. For every source, every consumer, the same parser, schemas and outputs, and every
  amount of fuel, the cooperative engine and the blocking engine yield the same
  segments with the same fragments, call \<^verbatim>\<open>State.update\<close> on the same events in the
  same order, leave the same variables, and end the same way: completed, with the same
  error, or still running.
\<close>

theorem sync_async_equivalence:
  "AsyncOutputStream_stream n E c source = OutputStream_stream n E c source"
  unfolding AsyncOutputStream_stream_def OutputStream_stream_def anext_item_eq
    astream_loop_eq ..

end
